theory Spec2Isabelle
  imports Complex_Main "HOL-Library.Char_ord" "HOL-Library.List_Lexorder" "HOL-Library.AList"
begin

section \<open>Data model (src/workers/types.ts)\<close>

text \<open>
  \<^verbatim>\<open>PdfTask\<close> is the item the producer hands to the queue; \<^verbatim>\<open>PdfTaskRecord\<close> extends it
  with the bookkeeping columns of table \<^verbatim>\<open>pdf_tasks\<close>.  A row of the table is represented by
  the \<^verbatim>\<open>PdfTaskRecord\<close> that \<^verbatim>\<open>rowToTaskRecord\<close> reads from it (column \<^verbatim>\<open>search_term\<close> is
  field \<open>searchTerm\<close>, \<^verbatim>\<open>worker_id\<close> is \<open>workerId\<close>, and so on); SQL \<^verbatim>\<open>NULL\<close> is \<open>None\<close>.
  The field \<^verbatim>\<open>id\<close> is written \<open>task_id\<close>.  JavaScript numbers that hold integers
  (page numbers, sizes, millisecond clocks, status codes) are \<open>int\<close>; strings are byte
  strings, compared as SQLite's default BINARY collation compares them.
\<close>

record PdfTask =
  task_id :: string
  searchTerm :: string
  pageNumber :: int
  pdfName :: string
  pdfUrl :: string
  fileSize :: int

text \<open>Task status codes: 0 pending, 1 in progress, 2 completed, 3 failed.\<close>

record PdfTaskRecord = PdfTask +
  status :: int
  workerId :: "string option"
  retryCount :: int
  createdAt :: int
  startedAt :: "int option"
  completedAt :: "int option"
  error :: "string option"

record QueueProgress =
  total :: int
  pending :: int
  inProgress :: int
  completed :: int
  failed :: int

datatype MetadataKey = json_fetch_complete | total_pages | total_pdfs | start_time

section \<open>The task queue (src/workers/task-queue.ts)\<close>

text \<open>
  A \<^verbatim>\<open>TaskQueue\<close> object is a handle on one SQLite file together with the search term it
  was opened for.  The state below is the content of the file (table \<^verbatim>\<open>pdf_tasks\<close> in
  rowid order, table \<^verbatim>\<open>metadata\<close> as key/value pairs) and the handle's
  \<^verbatim>\<open>this.searchTerm\<close>.  Every method is a function from the state before the call to the
  state after it; \<^verbatim>\<open>Date.now()\<close> is passed in as \<open>now\<close>.
\<close>

record TaskQueue =
  this_searchTerm :: string
  pdf_tasks :: "PdfTaskRecord list"
  metadata :: "(MetadataKey \<times> string) list"

text \<open>The constructor on a file that does not exist yet: both tables are created empty.\<close>

definition new_TaskQueue :: "string \<Rightarrow> TaskQueue" where
  "new_TaskQueue term =
     \<lparr>this_searchTerm = term, pdf_tasks = [], metadata = []\<rparr>"

definition initialize :: "TaskQueue \<Rightarrow> TaskQueue" where
  "initialize q = q\<lparr>pdf_tasks := [], metadata := []\<rparr>"

text \<open>
  One \<^verbatim>\<open>INSERT OR IGNORE\<close>: the row is skipped when it would violate
  \<^verbatim>\<open>id TEXT PRIMARY KEY\<close> or \<^verbatim>\<open>UNIQUE(search_term, pdf_name)\<close>; otherwise it is appended
  with status 0, the given creation time and the column defaults
  (\<^verbatim>\<open>retry_count\<close> 0, the other columns \<^verbatim>\<open>NULL\<close>).
\<close>

definition new_row :: "int \<Rightarrow> PdfTask \<Rightarrow> PdfTaskRecord" where
  "new_row now pdf =
     \<lparr>task_id = task_id pdf, searchTerm = searchTerm pdf, pageNumber = pageNumber pdf,
      pdfName = pdfName pdf, pdfUrl = pdfUrl pdf, fileSize = fileSize pdf,
      status = 0, workerId = None, retryCount = 0, createdAt = now,
      startedAt = None, completedAt = None, error = None\<rparr>"

definition conflicts :: "PdfTask \<Rightarrow> PdfTaskRecord \<Rightarrow> bool" where
  "conflicts pdf r \<longleftrightarrow>
     task_id r = task_id pdf \<or> (searchTerm r = searchTerm pdf \<and> pdfName r = pdfName pdf)"

definition insert_or_ignore :: "int \<Rightarrow> PdfTaskRecord list \<Rightarrow> PdfTask \<Rightarrow> PdfTaskRecord list" where
  "insert_or_ignore now rows pdf =
     (if list_ex (conflicts pdf) rows then rows else rows @ [new_row now pdf])"

definition insertPdfs :: "int \<Rightarrow> PdfTask list \<Rightarrow> TaskQueue \<Rightarrow> TaskQueue" where
  "insertPdfs now pdfs q = q\<lparr>pdf_tasks := foldl (insert_or_ignore now) (pdf_tasks q) pdfs\<rparr>"

text \<open>
  \<^verbatim>\<open>ORDER BY page_number, pdf_name\<close>: the strict order on rows, and the first row of a
  non-empty list that no other row precedes (\<^verbatim>\<open>LIMIT 1\<close>; among rows equal in both
  columns the earliest in table order is kept).
\<close>

definition precedes :: "PdfTaskRecord \<Rightarrow> PdfTaskRecord \<Rightarrow> bool" where
  "precedes a b \<longleftrightarrow>
     pageNumber a < pageNumber b \<or> (pageNumber a = pageNumber b \<and> pdfName a < pdfName b)"

fun first_in_order :: "PdfTaskRecord \<Rightarrow> PdfTaskRecord list \<Rightarrow> PdfTaskRecord" where
  "first_in_order best [] = best"
| "first_in_order best (r # rs) = first_in_order (if precedes r best then r else best) rs"

definition select_next_pending :: "PdfTaskRecord list \<Rightarrow> PdfTaskRecord option" where
  "select_next_pending rows =
     (case filter (\<lambda>r. status r = 0) rows of
        [] \<Rightarrow> None
      | r # rs \<Rightarrow> Some (first_in_order r rs))"

text \<open>
  \<^verbatim>\<open>claimNextPdf\<close>: the \<^verbatim>\<open>SELECT\<close> and the \<^verbatim>\<open>UPDATE ... WHERE id = ?\<close> of one
  transaction, as a single step on the state.  The result is the returned record (or
  \<open>None\<close> for \<^verbatim>\<open>null\<close>) and the state after \<^verbatim>\<open>COMMIT\<close>.
\<close>

definition claimNextPdf :: "string \<Rightarrow> int \<Rightarrow> TaskQueue \<Rightarrow> PdfTaskRecord option \<times> TaskQueue" where
  "claimNextPdf worker now q =
     (case select_next_pending (pdf_tasks q) of
        None \<Rightarrow> (None, q)
      | Some row \<Rightarrow>
          (Some (row\<lparr>status := 1, workerId := Some worker, startedAt := Some now,
                     completedAt := None, error := None\<rparr>),
           q\<lparr>pdf_tasks :=
               map (\<lambda>r. if task_id r = task_id row
                         then r\<lparr>status := 1, workerId := Some worker, startedAt := Some now\<rparr>
                         else r)
                 (pdf_tasks q)\<rparr>))"

definition markComplete :: "int \<Rightarrow> string \<Rightarrow> TaskQueue \<Rightarrow> TaskQueue" where
  "markComplete now taskId q =
     q\<lparr>pdf_tasks :=
         map (\<lambda>r. if task_id r = taskId
                   then r\<lparr>status := 2, completedAt := Some now, error := None\<rparr>
                   else r)
           (pdf_tasks q)\<rparr>"

definition markFailed :: "int \<Rightarrow> string \<Rightarrow> string \<Rightarrow> TaskQueue \<Rightarrow> TaskQueue" where
  "markFailed now taskId err q =
     q\<lparr>pdf_tasks :=
         map (\<lambda>r. if task_id r = taskId
                   then r\<lparr>status := 3, completedAt := Some now, error := Some err\<rparr>
                   else r)
           (pdf_tasks q)\<rparr>"

text \<open>
  SQL aggregates over the selected rows: \<^verbatim>\<open>COUNT(*)\<close> is the number of rows,
  \<^verbatim>\<open>SUM\<close> of no rows is \<^verbatim>\<open>NULL\<close>.  JavaScript's \<^verbatim>\<open>x || 0\<close> turns \<^verbatim>\<open>null\<close> (and 0) into 0.
\<close>

definition sql_count :: "'a list \<Rightarrow> int" where
  "sql_count rows = int (length rows)"

definition sql_sum :: "int list \<Rightarrow> int option" where
  "sql_sum xs = (if xs = [] then None else Some (sum_list xs))"

definition or_zero :: "int option \<Rightarrow> int" where
  "or_zero v = (case v of None \<Rightarrow> 0 | Some n \<Rightarrow> if n = 0 then 0 else n)"

definition sum_case_status :: "int \<Rightarrow> PdfTaskRecord list \<Rightarrow> int option" where
  "sum_case_status s rows = sql_sum (map (\<lambda>r. if status r = s then 1 else 0) rows)"

definition getProgress :: "TaskQueue \<Rightarrow> QueueProgress" where
  "getProgress q =
     (let rows = filter (\<lambda>r. searchTerm r = this_searchTerm q) (pdf_tasks q) in
      \<lparr>total = or_zero (Some (sql_count rows)),
       pending = or_zero (sum_case_status 0 rows),
       inProgress = or_zero (sum_case_status 1 rows),
       completed = or_zero (sum_case_status 2 rows),
       failed = or_zero (sum_case_status 3 rows)\<rparr>)"

definition getMetadata :: "MetadataKey \<Rightarrow> TaskQueue \<Rightarrow> string option" where
  "getMetadata key q = map_of (metadata q) key"

text \<open>\<^verbatim>\<open>INSERT OR REPLACE\<close> on the primary key \<^verbatim>\<open>key\<close>.\<close>

definition setMetadata :: "MetadataKey \<Rightarrow> string \<Rightarrow> TaskQueue \<Rightarrow> TaskQueue" where
  "setMetadata key v q =
     q\<lparr>metadata := filter (\<lambda>kv. fst kv \<noteq> key) (metadata q) @ [(key, v)]\<rparr>"

definition isComplete :: "TaskQueue \<Rightarrow> bool" where
  "isComplete q =
     (if getMetadata json_fetch_complete q \<noteq> Some ''true'' then False
      else sql_count (filter (\<lambda>r. searchTerm r = this_searchTerm q \<and> (status r = 0 \<or> status r = 1))
             (pdf_tasks q)) = 0)"

definition resetInProgress :: "TaskQueue \<Rightarrow> TaskQueue" where
  "resetInProgress q =
     q\<lparr>pdf_tasks :=
         map (\<lambda>r. if status r = 1 \<and> searchTerm r = this_searchTerm q
                   then r\<lparr>status := 0, workerId := None, startedAt := None\<rparr>
                   else r)
           (pdf_tasks q)\<rparr>"

text \<open>
  Sequences of public method calls on one handle, for statements about every state the
  queue can reach from a fresh file.
\<close>

datatype store_op =
    Initialize
  | InsertPdfs int "PdfTask list"
  | ClaimNextPdf string int
  | MarkComplete int string
  | MarkFailed int string string
  | ResetInProgress
  | SetMetadata MetadataKey string

fun apply_op :: "TaskQueue \<Rightarrow> store_op \<Rightarrow> TaskQueue" where
  "apply_op q Initialize = initialize q"
| "apply_op q (InsertPdfs now pdfs) = insertPdfs now pdfs q"
| "apply_op q (ClaimNextPdf worker now) = snd (claimNextPdf worker now q)"
| "apply_op q (MarkComplete now taskId) = markComplete now taskId q"
| "apply_op q (MarkFailed now taskId err) = markFailed now taskId err q"
| "apply_op q ResetInProgress = resetInProgress q"
| "apply_op q (SetMetadata key v) = setMetadata key v q"

definition run_ops :: "store_op list \<Rightarrow> TaskQueue \<Rightarrow> TaskQueue" where
  "run_ops ops q = foldl apply_op q ops"

text \<open>The constraints of the table's schema: the primary key and the \<^verbatim>\<open>UNIQUE\<close> pair.\<close>

definition schema_ok :: "PdfTaskRecord list \<Rightarrow> bool" where
  "schema_ok rows \<longleftrightarrow>
     distinct (map task_id rows) \<and> distinct (map (\<lambda>r. (searchTerm r, pdfName r)) rows)"

definition rows_for :: "string \<Rightarrow> string \<Rightarrow> PdfTaskRecord list \<Rightarrow> PdfTaskRecord list" where
  "rows_for term name rows = filter (\<lambda>r. searchTerm r = term \<and> pdfName r = name) rows"

section \<open>The worker (src/workers/worker.ts)\<close>

text \<open>
  A thrown value is a JavaScript \<^verbatim>\<open>Error\<close> with its message.  \<^verbatim>\<open>isDatabaseLocked\<close> tests
  the message against \<^verbatim>\<open>/database is locked/i\<close>: the pattern occurs somewhere in the
  message, letters compared without case.
\<close>

datatype Error = Error (message: string)

definition lower_ascii :: "char \<Rightarrow> char" where
  "lower_ascii c =
     (case map_of (zip ''ABCDEFGHIJKLMNOPQRSTUVWXYZ'' ''abcdefghijklmnopqrstuvwxyz'') c of
        Some l \<Rightarrow> l
      | None \<Rightarrow> c)"

fun occurs_in :: "string \<Rightarrow> string \<Rightarrow> bool" where
  "occurs_in pat [] = (pat = [])"
| "occurs_in pat (c # cs) = (take (length pat) (c # cs) = pat \<or> occurs_in pat cs)"

definition isDatabaseLocked :: "Error \<Rightarrow> bool" where
  "isDatabaseLocked e = occurs_in ''database is locked'' (map lower_ascii (message e))"

text \<open>
  \<^verbatim>\<open>withDbLockRetry\<close>.  The action is a thunk with effects; \<open>action k\<close> is what its call
  after \<open>k\<close> locked failures does: throw (\<open>Inl\<close>) or return (\<open>Inr\<close>).  The loop variable
  \<^verbatim>\<open>attempt\<close> counts the locked failures so far; the result carries the durations of the
  \<^verbatim>\<open>sleep\<close> calls made, in milliseconds and in order.
\<close>

function retry_from :: "(nat \<Rightarrow> Error + 'a) \<Rightarrow> nat \<Rightarrow> nat list \<Rightarrow> (Error + 'a) \<times> nat list" where
  "retry_from action attempt sleeps =
     (case action attempt of
        Inr v \<Rightarrow> (Inr v, sleeps)
      | Inl e \<Rightarrow>
          if \<not> isDatabaseLocked e then (Inl e, sleeps)
          else if attempt + 1 \<ge> 5 then (Inl e, sleeps)
          else retry_from action (attempt + 1) (sleeps @ [300 * (attempt + 1)]))"
  by pat_completeness auto
termination
  by (relation "measure (\<lambda>(action, attempt, sleeps). 5 - attempt)") auto

declare retry_from.simps [simp del]

definition withDbLockRetry :: "(nat \<Rightarrow> Error + 'a) \<Rightarrow> (Error + 'a) \<times> nat list" where
  "withDbLockRetry action = retry_from action 0 []"

text \<open>
  The \<^verbatim>\<open>catch\<close> block of \<^verbatim>\<open>runWorker\<close>: the entry appended to \<^verbatim>\<open>result.errors\<close> for an
  error that left the loop.
\<close>

definition catch_entry :: "Error \<Rightarrow> string" where
  "catch_entry e =
     (if isDatabaseLocked e then ''Queue busy: '' @ message e else ''Fatal: '' @ message e)"

record WorkerResult =
  result_workerId :: string
  pdfsProcessed :: nat
  pdfsSucceeded :: nat
  pdfsFailed :: nat
  errors :: "string list"

text \<open>
  The local variables of \<^verbatim>\<open>runWorker\<close> that live across iterations, and the log of its
  \<^verbatim>\<open>sleep\<close> calls (milliseconds, in order).
\<close>

record worker_state =
  result :: WorkerResult
  consecutiveErrors :: nat
  slept :: "nat list"

text \<open>
  What the world does during one iteration of the worker's loop: what other processes
  did to the file since the previous iteration (\<open>others\<close>), the clock, the errors the
  SQLite calls throw (\<open>None\<close>: the call goes through; a call that throws leaves the file
  as it was), and the error each download attempt throws (\<open>None\<close>: the file is saved).
\<close>

record iteration_env =
  others :: "TaskQueue \<Rightarrow> TaskQueue"
  claim_time :: "nat \<Rightarrow> int"
  claim_fault :: "nat \<Rightarrow> Error option"
  read_fault :: "Error option"
  download_fault :: "nat \<Rightarrow> Error option"
  mark_time :: "nat \<Rightarrow> int"
  mark_fault :: "nat \<Rightarrow> Error option"

datatype control = Continue | Break | Thrown Error

definition db_call :: "(nat \<Rightarrow> Error option) \<Rightarrow> (nat \<Rightarrow> 'a) \<Rightarrow> nat \<Rightarrow> Error + 'a" where
  "db_call fault run k = (case fault k of Some e \<Rightarrow> Inl e | None \<Rightarrow> Inr (run k))"

text \<open>\<^verbatim>\<open>error.message || "Unknown error"\<close>: an empty message is replaced.\<close>

definition message_or_unknown :: "Error \<Rightarrow> string" where
  "message_or_unknown e = (if message e = [] then ''Unknown error'' else message e)"

text \<open>
  The download loop, \<^verbatim>\<open>for (let attempt = 1; attempt <= 3; attempt++)\<close>; its result is
  \<^verbatim>\<open>success\<close>, \<^verbatim>\<open>lastError\<close>, \<^verbatim>\<open>consecutiveErrors\<close> and the sleeps made.
\<close>

function download_attempts ::
  "(nat \<Rightarrow> Error option) \<Rightarrow> nat \<Rightarrow> string \<Rightarrow> nat \<Rightarrow> nat list \<Rightarrow> bool \<times> string \<times> nat \<times> nat list" where
  "download_attempts dl attempt lastError cons sleeps =
     (if attempt \<le> 3 then
        (case dl attempt of
           None \<Rightarrow> (True, lastError, 0, sleeps)
         | Some e \<Rightarrow>
             download_attempts dl (attempt + 1)
               (message_or_unknown e)
               cons
               (if attempt < 3 then sleeps @ [2000 * attempt] else sleeps))
      else (False, lastError, cons, sleeps))"
  by pat_completeness auto
termination
  by (relation "measure (\<lambda>(dl, attempt, lastError, cons, sleeps). 4 - attempt)") auto

declare download_attempts.simps [simp del]

text \<open>The branch \<^verbatim>\<open>if (!pdf)\<close>: nothing was claimed.\<close>

definition no_task :: "iteration_env \<Rightarrow> worker_state \<Rightarrow> TaskQueue \<Rightarrow> control \<times> worker_state \<times> TaskQueue" where
  "no_task env ws q =
     (case read_fault env of
        Some e \<Rightarrow> (Thrown e, ws, q)
      | None \<Rightarrow>
          (let isComplete = getMetadata json_fetch_complete q;
               progress = getProgress q
           in if isComplete = Some ''true'' then (Break, ws, q)
              else (Continue, ws\<lparr>slept := slept ws @ [500]\<rparr>, q)))"

text \<open>Steps 2 and 3 of the loop body for a claimed task.\<close>

definition process_task ::
  "iteration_env \<Rightarrow> PdfTaskRecord \<Rightarrow> worker_state \<Rightarrow> TaskQueue \<Rightarrow> control \<times> worker_state \<times> TaskQueue" where
  "process_task env pdf ws q =
     (let ws1 = ws\<lparr>result := (result ws)\<lparr>pdfsProcessed := pdfsProcessed (result ws) + 1\<rparr>\<rparr>;
          (success, lastError, cons, zs) =
             download_attempts (download_fault env) 1 [] (consecutiveErrors ws1) [];
          ws2 = ws1\<lparr>consecutiveErrors := cons, slept := slept ws1 @ zs\<rparr>
      in if success then
           (case withDbLockRetry
                   (db_call (mark_fault env) (\<lambda>k. markComplete (mark_time env k) (task_id pdf) q)) of
              (Inl e, zs') \<Rightarrow> (Thrown e, ws2\<lparr>slept := slept ws2 @ zs'\<rparr>, q)
            | (Inr q', zs') \<Rightarrow>
                (Continue,
                 ws2\<lparr>slept := slept ws2 @ zs',
                     result := (result ws2)\<lparr>pdfsSucceeded := pdfsSucceeded (result ws2) + 1\<rparr>\<rparr>,
                 q'))
         else
           (case withDbLockRetry
                   (db_call (mark_fault env)
                      (\<lambda>k. markFailed (mark_time env k) (task_id pdf) lastError q)) of
              (Inl e, zs') \<Rightarrow> (Thrown e, ws2\<lparr>slept := slept ws2 @ zs'\<rparr>, q)
            | (Inr q', zs') \<Rightarrow>
                (let ws3 = ws2\<lparr>slept := slept ws2 @ zs',
                               result := (result ws2)
                                 \<lparr>pdfsFailed := pdfsFailed (result ws2) + 1,
                                  errors := errors (result ws2) @ [pdfName pdf @ '': '' @ lastError]\<rparr>,
                               consecutiveErrors := consecutiveErrors ws2 + 1\<rparr>
                 in if consecutiveErrors ws3 \<ge> 5 then (Break, ws3, q')
                    else (Continue, ws3, q'))))"

text \<open>One pass through the body of \<^verbatim>\<open>while (true)\<close>.\<close>

definition iteration ::
  "string \<Rightarrow> iteration_env \<Rightarrow> worker_state \<Rightarrow> TaskQueue \<Rightarrow> control \<times> worker_state \<times> TaskQueue" where
  "iteration worker env ws q =
     (case withDbLockRetry
             (db_call (claim_fault env) (\<lambda>k. claimNextPdf worker (claim_time env k) q)) of
        (Inl e, zs) \<Rightarrow> (Thrown e, ws\<lparr>slept := slept ws @ zs\<rparr>, q)
      | (Inr (None, q1), zs) \<Rightarrow> no_task env (ws\<lparr>slept := slept ws @ zs\<rparr>) q1
      | (Inr (Some pdf, q1), zs) \<Rightarrow> process_task env pdf (ws\<lparr>slept := slept ws @ zs\<rparr>) q1)"

text \<open>
  The loop, run against the worlds of its successive iterations.  \<open>None\<close>: the loop has
  not left after the iterations given (it is still polling or downloading).  \<open>Some\<close>:
  the loop has left, by \<^verbatim>\<open>break\<close> or through the \<^verbatim>\<open>catch\<close> block.
\<close>

fun worker_loop ::
  "string \<Rightarrow> iteration_env list \<Rightarrow> worker_state \<Rightarrow> TaskQueue \<Rightarrow> (worker_state \<times> TaskQueue) option" where
  "worker_loop worker [] ws q = None"
| "worker_loop worker (env # envs) ws q =
     (case iteration worker env ws (others env q) of
        (Continue, ws', q') \<Rightarrow> worker_loop worker envs ws' q'
      | (Break, ws', q') \<Rightarrow> Some (ws', q')
      | (Thrown e, ws', q') \<Rightarrow>
          Some (ws'\<lparr>result := (result ws')\<lparr>errors := errors (result ws') @ [catch_entry e]\<rparr>\<rparr>, q'))"

definition initial_worker_state :: "string \<Rightarrow> worker_state" where
  "initial_worker_state worker =
     \<lparr>result = \<lparr>result_workerId = worker, pdfsProcessed = 0, pdfsSucceeded = 0,
                pdfsFailed = 0, errors = []\<rparr>,
      consecutiveErrors = 0, slept = []\<rparr>"

text \<open>
  \<^verbatim>\<open>runWorker\<close>: when the queue cannot be opened the function returns at once with one
  error entry; otherwise it runs the loop.  The script's exit code is 1 when a task
  failed and 0 otherwise.
\<close>

definition runWorker ::
  "string \<Rightarrow> Error option \<Rightarrow> iteration_env list \<Rightarrow> TaskQueue \<Rightarrow> (WorkerResult \<times> TaskQueue) option" where
  "runWorker worker open_fault envs q =
     (case open_fault of
        Some e \<Rightarrow>
          Some (\<lparr>result_workerId = worker, pdfsProcessed = 0, pdfsSucceeded = 0, pdfsFailed = 0,
                 errors = [''Queue creation failed: '' @ message e]\<rparr>, q)
      | None \<Rightarrow>
          map_option (\<lambda>(ws, q'). (result ws, q'))
            (worker_loop worker envs (initial_worker_state worker) q))"

definition exit_code :: "WorkerResult \<Rightarrow> int" where
  "exit_code res = (if pdfsFailed res > 0 then 1 else 0)"

text \<open>A world in which nothing goes wrong and nobody else touches the file.\<close>

definition calm :: iteration_env where
  "calm = \<lparr>others = (\<lambda>q. q), claim_time = (\<lambda>k. 0), claim_fault = (\<lambda>k. None), read_fault = None,
           download_fault = (\<lambda>k. None), mark_time = (\<lambda>k. 0), mark_fault = (\<lambda>k. None)\<rparr>"

section \<open>The worker pool (src/workers/worker-pool.ts)\<close>

text \<open>
  Worker identifiers are the strings \<^verbatim>\<open>worker-1\<close>, \<^verbatim>\<open>worker-2\<close>, ... built by the
  template \<^verbatim>\<open>`worker-${i + 1}`\<close>.
\<close>

definition digit_char :: "nat \<Rightarrow> char" where
  "digit_char d = ''0123456789'' ! d"

function decimal :: "nat \<Rightarrow> string" where
  "decimal n = (if n < 10 then [digit_char n] else decimal (n div 10) @ [digit_char (n mod 10)])"
  by pat_completeness auto
termination
  by (relation "measure (\<lambda>n. n)") auto

definition worker_id_of :: "nat \<Rightarrow> string" where
  "worker_id_of i = ''worker-'' @ decimal (i + 1)"

text \<open>
  The worker count is a JavaScript \<^verbatim>\<open>number\<close>: \<^verbatim>\<open>NaN\<close>, an infinity, or a finite value,
  which need not be an integer (every finite double is a rational).  \<^verbatim>\<open>Math.min\<close> and
  \<^verbatim>\<open>Math.max\<close> return \<^verbatim>\<open>NaN\<close> when an argument is \<^verbatim>\<open>NaN\<close>, and a comparison with
  \<^verbatim>\<open>NaN\<close> is false.
\<close>

datatype number = NaN | NegInfinity | Finite rat | PosInfinity

fun math_min :: "number \<Rightarrow> number \<Rightarrow> number" where
  "math_min NaN b = NaN"
| "math_min a NaN = NaN"
| "math_min NegInfinity b = NegInfinity"
| "math_min a NegInfinity = NegInfinity"
| "math_min PosInfinity b = b"
| "math_min a PosInfinity = a"
| "math_min (Finite x) (Finite y) = Finite (min x y)"

fun math_max :: "number \<Rightarrow> number \<Rightarrow> number" where
  "math_max NaN b = NaN"
| "math_max a NaN = NaN"
| "math_max PosInfinity b = PosInfinity"
| "math_max a PosInfinity = PosInfinity"
| "math_max NegInfinity b = b"
| "math_max a NegInfinity = a"
| "math_max (Finite x) (Finite y) = Finite (max x y)"

text \<open>The operator \<^verbatim>\<open><\<close> on numbers.\<close>

fun js_less :: "number \<Rightarrow> number \<Rightarrow> bool" where
  "js_less NaN b = False"
| "js_less a NaN = False"
| "js_less PosInfinity b = False"
| "js_less a PosInfinity = True"
| "js_less a NegInfinity = False"
| "js_less NegInfinity b = True"
| "js_less (Finite x) (Finite y) = (x < y)"

definition number_of_nat :: "nat \<Rightarrow> number" where
  "number_of_nat i = Finite (of_nat i)"

definition number_of_int :: "int \<Rightarrow> number" where
  "number_of_int i = Finite (of_int i)"

record exit_record =
  code :: int
  signal :: "string option"

text \<open>
  \<^verbatim>\<open>totalWorkers\<close> is the stored worker count; the other two fields are counters that
  start at 0 and go up by one.
\<close>

record WorkerPoolResult =
  totalWorkers :: number
  completedWorkers :: int
  failedWorkers :: int

text \<open>
  The pool's two maps: \<open>workers\<close> holds the keys of \<^verbatim>\<open>this.workers\<close> (the live child
  processes) and \<open>results\<close> the entries of \<^verbatim>\<open>this.results\<close>, both in insertion order.
  \<^verbatim>\<open>Map.set\<close> replaces the value of a key in place or appends a new entry, as
  \<^const>\<open>AList.update\<close> does.
\<close>

record WorkerPool =
  workerCount :: number
  workers :: "string list"
  results :: "(string \<times> exit_record) list"

text \<open>The constructor: \<^verbatim>\<open>Math.max(1, Math.min(10, workerCount))\<close>.\<close>

definition new_WorkerPool :: "number \<Rightarrow> WorkerPool" where
  "new_WorkerPool n =
     \<lparr>workerCount = math_max (Finite 1) (math_min (Finite 10) n), workers = [], results = []\<rparr>"

definition spawnWorker :: "WorkerPool \<Rightarrow> string \<Rightarrow> WorkerPool" where
  "spawnWorker pool wid =
     pool\<lparr>workers := (if wid \<in> set (workers pool) then workers pool else workers pool @ [wid])\<rparr>"

text \<open>
  \<^verbatim>\<open>start\<close>: the loop \<^verbatim>\<open>for (let i = 0; i < this.workerCount; i++)\<close>.  On a pool whose
  stored count is infinite the loop does not end (\<open>None\<close>); the constructor stores no
  such count.
\<close>

partial_function (option) spawn_loop :: "nat \<Rightarrow> WorkerPool \<Rightarrow> WorkerPool option" where
  "spawn_loop i pool =
     (if js_less (number_of_nat i) (workerCount pool)
      then spawn_loop (i + 1) (spawnWorker pool (worker_id_of i))
      else Some pool)"

definition start :: "WorkerPool \<Rightarrow> WorkerPool option" where
  "start pool = spawn_loop 0 pool"

text \<open>
  The events a child process emits to the listeners of \<^verbatim>\<open>spawnWorker\<close>: \<^verbatim>\<open>close\<close> with
  the exit code (\<^verbatim>\<open>null\<close> when a signal ended the process) and the signal, and
  \<^verbatim>\<open>error\<close> when the process could not be spawned or killed.
\<close>

datatype child_event = Close "int option" "string option" | SpawnError

fun handle_event :: "WorkerPool \<Rightarrow> string \<times> child_event \<Rightarrow> WorkerPool" where
  "handle_event pool (wid, Close c s) =
     pool\<lparr>results := AList.update wid \<lparr>code = or_zero c, signal = s\<rparr> (results pool),
          workers := removeAll wid (workers pool)\<rparr>"
| "handle_event pool (wid, SpawnError) =
     pool\<lparr>results := AList.update wid \<lparr>code = 1, signal = None\<rparr> (results pool),
          workers := removeAll wid (workers pool)\<rparr>"

definition compile_results :: "WorkerPool \<Rightarrow> WorkerPoolResult" where
  "compile_results pool =
     foldl (\<lambda>res entry.
              if code (snd entry) = 0
              then res\<lparr>completedWorkers := completedWorkers res + 1\<rparr>
              else res\<lparr>failedWorkers := failedWorkers res + 1\<rparr>)
       \<lparr>totalWorkers = workerCount pool, completedWorkers = 0, failedWorkers = 0\<rparr>
       (results pool)"

text \<open>
  \<^verbatim>\<open>waitForCompletion\<close> polls \<^verbatim>\<open>this.workers.size\<close> once a second; the argument lists
  the events delivered during each of the successive sleeps.  \<open>None\<close>: a worker is still
  alive after the last of them, the call has not returned.
\<close>

fun waitForCompletion :: "(string \<times> child_event) list list \<Rightarrow> WorkerPool \<Rightarrow> WorkerPoolResult option" where
  "waitForCompletion [] pool =
     (if workers pool = [] then Some (compile_results pool) else None)"
| "waitForCompletion (evs # ticks) pool =
     (if workers pool = [] then Some (compile_results pool)
      else waitForCompletion ticks (foldl handle_event pool evs))"

section \<open>The producer (Coordinator.extractPdfsFromJson)\<close>

text \<open>
  The coordinator is the only caller of \<^verbatim>\<open>insertPdfs\<close>.  It builds each task from a hit of
  the search result: the id is the template
  \<^verbatim>\<open>`${this.searchTerm}_${pageNumber}_${source.ORIGIN_FILE_NAME}_${timestamp}`\<close>, the search
  term is the coordinator's own, and hits without a file name or address are left out.
  \<open>show_int\<close> is the decimal text of an integer, as the template prints a page number and
  \<^verbatim>\<open>Date.now()\<close> (integers far below \<^verbatim>\<open>1e21\<close>, where JavaScript turns to exponent
  notation).  The arguments of \<open>extractPdfsFromJson\<close> are \<^verbatim>\<open>this.searchTerm\<close>, the value of
  \<^verbatim>\<open>Date.now()\<close>, the list \<^verbatim>\<open>data.hits?.hits || []\<close> with each hit's \<^verbatim>\<open>_source\<close>, and the
  page number.
\<close>

record hit_source =
  ORIGIN_FILE_NAME :: string
  ORIGIN_FILE_URI :: string
  source_fileSize :: "int option"

definition show_int :: "int \<Rightarrow> string" where
  "show_int i = (if i < 0 then ''-'' @ decimal (nat (- i)) else decimal (nat i))"

definition task_of_hit :: "string \<Rightarrow> int \<Rightarrow> int \<Rightarrow> hit_source \<Rightarrow> PdfTask" where
  "task_of_hit term page timestamp source =
     \<lparr>task_id = term @ ''_'' @ show_int page @ ''_'' @ ORIGIN_FILE_NAME source @ ''_''
                  @ show_int timestamp,
      searchTerm = term, pageNumber = page, pdfName = ORIGIN_FILE_NAME source,
      pdfUrl = ORIGIN_FILE_URI source, fileSize = or_zero (source_fileSize source)\<rparr>"

definition extractPdfsFromJson ::
  "string \<Rightarrow> int \<Rightarrow> hit_source option list \<Rightarrow> int \<Rightarrow> PdfTask list" where
  "extractPdfsFromJson term timestamp hits page =
     map (task_of_hit term page timestamp)
       (List.map_filter
          (\<lambda>hit. case hit of
                    None \<Rightarrow> None
                  | Some source \<Rightarrow>
                      if ORIGIN_FILE_NAME source \<noteq> [] \<and> ORIGIN_FILE_URI source \<noteq> []
                      then Some source else None)
          hits)"

section \<open>Predicates and sample data used in the statements\<close>

text \<open>The four status codes of \<^verbatim>\<open>TaskStatus\<close>.\<close>

definition status_known :: "PdfTaskRecord \<Rightarrow> bool" where
  "status_known r \<longleftrightarrow> status r = 0 \<or> status r = 1 \<or> status r = 2 \<or> status r = 3"


text \<open>
  A row that is pending or in progress has no completion time and no error text; a
  store state is in order when the schema's constraints hold and every such row is so.
\<close>

definition open_row_clean :: "PdfTaskRecord \<Rightarrow> bool" where
  "open_row_clean r \<longleftrightarrow>
     (if status r = 0 \<or> status r = 1 then completedAt r = None \<and> error r = None else True)"

definition store_inv :: "PdfTaskRecord list \<Rightarrow> bool" where
  "store_inv rows \<longleftrightarrow> schema_ok rows \<and> list_all open_row_clean rows"

text \<open>\<open>a\<close> is at or before \<open>b\<close> in the order \<^verbatim>\<open>page_number, pdf_name\<close>.\<close>

definition not_after :: "PdfTaskRecord \<Rightarrow> PdfTaskRecord \<Rightarrow> bool" where
  "not_after a b \<longleftrightarrow>
     pageNumber a < pageNumber b \<or> (pageNumber a = pageNumber b \<and> pdfName a \<le> pdfName b)"

text \<open>The delays of \<open>n\<close> retries of a locked database call: 300 ms times the attempt number.\<close>

definition lock_backoff :: "nat \<Rightarrow> nat list" where
  "lock_backoff n = map (\<lambda>k. 300 * k) [1..<Suc n]"

text \<open>
  A database call of the worker goes through at its call number \<open>n\<close>: the calls before
  it met a locked database, and \<open>n\<close> is within the retry ceiling.
\<close>

definition goes_through :: "(nat \<Rightarrow> Error option) \<Rightarrow> nat \<Rightarrow> bool" where
  "goes_through fault n \<longleftrightarrow>
     n \<le> 4 \<and> (\<forall>k<n. \<exists>e. fault k = Some e \<and> isDatabaseLocked e) \<and> fault n = None"

text \<open>
  What identifies a task: its id and its key \<open>(searchTerm, pdfName)\<close>.  Ids identify
  tasks in a list of such entries when two entries with the same id have the same key.
\<close>

definition entry :: "'a PdfTask_scheme \<Rightarrow> string \<times> string \<times> string" where
  "entry t = (task_id t, searchTerm t, pdfName t)"

definition ids_identify :: "(string \<times> string \<times> string) list \<Rightarrow> bool" where
  "ids_identify es \<longleftrightarrow> list_all (\<lambda>a. list_all (\<lambda>b. fst a \<noteq> fst b \<or> snd a = snd b) es) es"

text \<open>The items a call inserts, and the entries the producer builds for a search term.\<close>

fun inserted :: "store_op \<Rightarrow> PdfTask list" where
  "inserted (InsertPdfs now pdfs) = pdfs"
| "inserted other = []"

definition produced_for :: "string \<Rightarrow> string \<times> string \<times> string \<Rightarrow> bool" where
  "produced_for term e \<longleftrightarrow>
     (\<exists>page name stamp.
        e = (term @ ''_'' @ show_int page @ ''_'' @ name @ ''_'' @ show_int stamp, term, name))"




text \<open>
  The first \<open>n\<close> calls of a database action meet a locked database, \<open>n\<close> within the
  retry ceiling.
\<close>

definition busy_before :: "(nat \<Rightarrow> Error option) \<Rightarrow> nat \<Rightarrow> bool" where
  "busy_before fault n \<longleftrightarrow> n \<le> 4 \<and> (\<forall>k<n. \<exists>e. fault k = Some e \<and> isDatabaseLocked e)"

definition task :: "string \<Rightarrow> string \<Rightarrow> int \<Rightarrow> string \<Rightarrow> PdfTask" where
  "task tid term page name =
     \<lparr>task_id = tid, searchTerm = term, pageNumber = page, pdfName = name,
      pdfUrl = ''https://www.justice.gov/'' @ name, fileSize = 1024\<rparr>"

text \<open>
  Sample states: a queue opened for one search term holding three pending tasks of that
  term; a run of calls in which the first of three tasks is claimed and fails and the
  second is claimed; and a queue opened for one term into which a task of another term
  was inserted.
\<close>

definition sample_queue :: TaskQueue where
  "sample_queue =
     insertPdfs 10
       [task ''t1'' ''alpha'' 2 ''a.pdf'', task ''t2'' ''alpha'' 1 ''b.pdf'',
        task ''t3'' ''alpha'' 1 ''c.pdf'']
       (new_TaskQueue ''alpha'')"


definition foreign_queue :: TaskQueue where
  "foreign_queue = insertPdfs 10 [task ''t1'' ''beta'' 1 ''a.pdf''] (new_TaskQueue ''alpha'')"


text \<open>
  Sample worlds: the database is locked for the first four calls of an action; every
  download attempt fails with the given message.
\<close>

definition locked_four_times :: "nat \<Rightarrow> Error option" where
  "locked_four_times k = (if k < 4 then Some (Error ''database is locked'') else None)"

definition always_locked :: "nat \<Rightarrow> Error option" where
  "always_locked k = Some (Error ''database is locked'')"

definition disk_error :: "nat \<Rightarrow> Error option" where
  "disk_error k = Some (Error ''disk I/O error'')"

text \<open>A world in which the claim and the mark each meet a locked database four times.\<close>

definition busy_world :: iteration_env where
  "busy_world = calm\<lparr>claim_fault := locked_four_times, mark_fault := locked_four_times\<rparr>"

definition failing_downloads :: "string \<Rightarrow> iteration_env" where
  "failing_downloads msg =
     calm\<lparr>claim_time := (\<lambda>k. 100), download_fault := (\<lambda>k. Some (Error msg)),
          mark_time := (\<lambda>k. 200)\<rparr>"

text \<open>
  A sample run of four iterations: the downloads of the first task fail, the claim of the
  second meets a locked database four times, the third goes through, and before the
  fourth the producer sets the ingestion-complete flag.
\<close>

definition sample_run :: "iteration_env list" where
  "sample_run =
     [failing_downloads ''HTTP 503'',
      calm\<lparr>claim_fault := locked_four_times\<rparr>,
      calm,
      calm\<lparr>others := setMetadata json_fetch_complete ''true''\<rparr>]"

text \<open>
  Every worker of the set \<open>S\<close> is a live child process or has a recorded result, and no
  worker has two results.
\<close>

definition accounted :: "string set \<Rightarrow> WorkerPool \<Rightarrow> bool" where
  "accounted S pool \<longleftrightarrow>
     distinct (map fst (results pool)) \<and> set (workers pool) \<union> fst ` set (results pool) = S"

text \<open>
  The number of passes the loop of \<^verbatim>\<open>start\<close> makes for a count given to the constructor
  (the integers \<open>i \<ge> 0\<close> below the stored count), and the pool after \<^verbatim>\<open>start\<close>.
\<close>

definition spawned :: "number \<Rightarrow> nat" where
  "spawned n =
     (case math_max (Finite 1) (math_min (Finite 10) n) of
        Finite c \<Rightarrow> nat \<lceil>c\<rceil>
      | _ \<Rightarrow> 0)"

definition started :: "number \<Rightarrow> WorkerPool" where
  "started n =
     \<lparr>workerCount = math_max (Finite 1) (math_min (Finite 10) n),
      workers = map worker_id_of [0..<spawned n], results = []\<rparr>"

section \<open>Facts shared by the queue theorems\<close>

lemma or_zero_Some: "or_zero (Some n) = n"
  by (simp add: or_zero_def)

lemma or_zero_sum_case_status:
  "or_zero (sum_case_status s rows) = sum_list (map (\<lambda>r. if status r = s then 1 else 0) rows)"
  by (simp add: sum_case_status_def sql_sum_def or_zero_def)

lemma sum_case_status_no_rows: "sum_case_status s [] = None"
  by (simp add: sum_case_status_def sql_sum_def)

lemma run_ops_snoc: "run_ops (ops @ [op]) q = apply_op (run_ops ops q) op"
  by (simp add: run_ops_def)

lemma pdf_tasks_claimNextPdf:
  "pdf_tasks (snd (claimNextPdf w now q)) = pdf_tasks q \<or>
   (\<exists>tid. pdf_tasks (snd (claimNextPdf w now q)) =
      map (\<lambda>r. if task_id r = tid
                then r\<lparr>status := 1, workerId := Some w, startedAt := Some now\<rparr> else r)
        (pdf_tasks q))"
  by (auto simp: claimNextPdf_def split: option.splits)

lemma rows_insert_or_ignore:
  "list_all P rows \<Longrightarrow> P (new_row now pdf) \<Longrightarrow> list_all P (insert_or_ignore now rows pdf)"
  by (simp add: insert_or_ignore_def)

lemma rows_insertPdfs:
  "list_all P rows \<Longrightarrow> (\<And>pdf. P (new_row now pdf)) \<Longrightarrow>
   list_all P (foldl (insert_or_ignore now) rows pdfs)"
  by (induction pdfs arbitrary: rows) (simp_all add: rows_insert_or_ignore)

section \<open>Claiming the next task\<close>

lemma not_after_iff: "not_after a b \<longleftrightarrow> \<not> precedes b a"
  by (auto simp: not_after_def precedes_def)

lemma not_after_trans: "not_after a b \<Longrightarrow> not_after b c \<Longrightarrow> not_after a c"
  by (auto simp: not_after_def)

lemma not_after_refl: "not_after a a"
  by (simp add: not_after_def)

lemma first_in_order_mem: "first_in_order best rs \<in> set (best # rs)"
  by (induction rs arbitrary: best) auto

lemma first_in_order_least:
  "not_after (first_in_order best rs) best \<and> (\<forall>r \<in> set rs. not_after (first_in_order best rs) r)"
proof (induction rs arbitrary: best)
  case Nil
  show ?case by (simp add: not_after_refl)
next
  case (Cons r rs)
  let ?b = "if precedes r best then r else best"
  let ?m = "first_in_order ?b rs"
  have ih: "not_after ?m ?b" "\<forall>x \<in> set rs. not_after ?m x"
    using Cons.IH [of ?b] by simp_all
  have "not_after ?b best" "not_after ?b r"
    by (auto simp: not_after_iff not_after_refl) (auto simp: precedes_def)
  with ih(1) have "not_after ?m best" "not_after ?m r"
    by (blast intro: not_after_trans)+
  with ih(2) show ?case by simp
qed


lemma select_next_pending_Some:
  assumes "select_next_pending rows = Some row"
  shows "row \<in> set rows \<and> status row = 0 \<and> (\<forall>r \<in> set rows. status r = 0 \<longrightarrow> not_after row r)"
proof -
  obtain p ps where f: "filter (\<lambda>r. status r = 0) rows = p # ps" and row: "row = first_in_order p ps"
    using assms by (auto simp: select_next_pending_def split: list.splits)
  have "row \<in> set (p # ps)" using row first_in_order_mem by simp
  then have m: "row \<in> set (filter (\<lambda>r. status r = 0) rows)" using f by simp
  have "\<forall>r \<in> set (p # ps). not_after row r"
    using first_in_order_least [of p ps] row by simp
  then have "\<forall>r \<in> set (filter (\<lambda>r. status r = 0) rows). not_after row r" using f by simp
  with m show ?thesis by simp
qed

lemma update_by_id:
  assumes "distinct (map task_id rows)" "i < length rows"
  shows "map (\<lambda>r. if task_id r = task_id (rows ! i) then g r else r) rows = rows[i := g (rows ! i)]"
proof (rule nth_equalityI)
  show "length (map (\<lambda>r. if task_id r = task_id (rows ! i) then g r else r) rows)
        = length (rows[i := g (rows ! i)])" by simp
next
  fix j assume "j < length (map (\<lambda>r. if task_id r = task_id (rows ! i) then g r else r) rows)"
  then have j: "j < length rows" by simp
  have "task_id (rows ! j) = task_id (rows ! i) \<longleftrightarrow> j = i"
    using assms j nth_eq_iff_index_eq [of "map task_id rows" j i] by auto
  then show "map (\<lambda>r. if task_id r = task_id (rows ! i) then g r else r) rows ! j
             = rows[i := g (rows ! i)] ! j"
    using j by (auto simp: nth_list_update)
qed

lemma not_after_strict: "not_after a b \<Longrightarrow> pdfName a \<noteq> pdfName b \<Longrightarrow> precedes a b"
  by (auto simp: not_after_def precedes_def)

lemma own_rows_names_differ:
  assumes "schema_ok rows" "i < length rows" "j < length rows" "j \<noteq> i"
    "searchTerm (rows ! i) = searchTerm (rows ! j)"
  shows "pdfName (rows ! i) \<noteq> pdfName (rows ! j)"
proof
  assume "pdfName (rows ! i) = pdfName (rows ! j)"
  then have "map (\<lambda>r. (searchTerm r, pdfName r)) rows ! i = map (\<lambda>r. (searchTerm r, pdfName r)) rows ! j"
    using assms(2,3,5) by simp
  moreover have "distinct (map (\<lambda>r. (searchTerm r, pdfName r)) rows)"
    using assms(1) by (simp add: schema_ok_def)
  ultimately show False
    using assms(2-4) nth_eq_iff_index_eq [of "map (\<lambda>r. (searchTerm r, pdfName r)) rows" i j]
    by simp
qed

text \<open>
  C1: on a store whose table satisfies the schema's constraints and whose rows all carry
  the handle's search term (all tasks of one queue share one group key),
  \<^verbatim>\<open>claimNextPdf\<close> returns \<^verbatim>\<open>null\<close> and changes nothing when no row of that term is
  pending.  Otherwise one pending row of that term comes strictly before every other
  pending row of the term in the order \<open>(pageNumber, pdfName)\<close>; that row and no other
  is set to status 1 with the caller as owner and \<open>now\<close> as start time, and the record
  returned is that row with these values.
\<close>

theorem claimNextPdf_lowest_pending_of_term:
  assumes "schema_ok (pdf_tasks q)"
    and "list_all (\<lambda>r. searchTerm r = this_searchTerm q) (pdf_tasks q)"
  shows
   "(filter (\<lambda>r. searchTerm r = this_searchTerm q \<and> status r = 0) (pdf_tasks q) = [] \<longrightarrow>
        claimNextPdf w now q = (None, q)) \<and>
    (filter (\<lambda>r. searchTerm r = this_searchTerm q \<and> status r = 0) (pdf_tasks q) \<noteq> [] \<longrightarrow>
       (\<exists>i < length (pdf_tasks q).
          searchTerm (pdf_tasks q ! i) = this_searchTerm q \<and> status (pdf_tasks q ! i) = 0 \<and>
          (\<forall>j < length (pdf_tasks q).
              j \<noteq> i \<and> searchTerm (pdf_tasks q ! j) = this_searchTerm q \<and> status (pdf_tasks q ! j) = 0
              \<longrightarrow> precedes (pdf_tasks q ! i) (pdf_tasks q ! j)) \<and>
          claimNextPdf w now q =
            (Some ((pdf_tasks q ! i)\<lparr>status := 1, workerId := Some w, startedAt := Some now,
                                     completedAt := None, error := None\<rparr>),
             q\<lparr>pdf_tasks := (pdf_tasks q)
                  [i := (pdf_tasks q ! i)\<lparr>status := 1, workerId := Some w, startedAt := Some now\<rparr>]\<rparr>)))"
proof -
  let ?rows = "pdf_tasks q"
  have own: "searchTerm r = this_searchTerm q" if "r \<in> set ?rows" for r
    using assms(2) that by (simp add: list_all_iff)
  have pend: "filter (\<lambda>r. searchTerm r = this_searchTerm q \<and> status r = 0) ?rows
              = filter (\<lambda>r. status r = 0) ?rows"
    using own by (auto intro: filter_cong)
  have ids: "distinct (map task_id ?rows)"
    using assms(1) by (simp add: schema_ok_def)
  show ?thesis
  proof (cases "select_next_pending ?rows")
    case None
    then have "filter (\<lambda>r. status r = 0) ?rows = []"
      by (simp add: select_next_pending_def split: list.splits)
    then show ?thesis
      using None pend by (simp add: claimNextPdf_def)
  next
    case (Some row)
    from select_next_pending_Some [OF this]
    have row: "row \<in> set ?rows" "status row = 0"
        "\<forall>r \<in> set ?rows. status r = 0 \<longrightarrow> not_after row r" by simp_all
    then obtain i where i: "i < length ?rows" "?rows ! i = row"
      by (auto simp: in_set_conv_nth)
    have least: "precedes (?rows ! i) (?rows ! j)"
      if "j < length ?rows" "j \<noteq> i" "status (?rows ! j) = 0" for j
    proof -
      have "not_after (?rows ! i) (?rows ! j)"
        using row(3) i(2) that(1,3) by simp
      moreover have "pdfName (?rows ! i) \<noteq> pdfName (?rows ! j)"
        using assms(1) i(1) that(1,2) own by (intro own_rows_names_differ) simp_all
      ultimately show ?thesis by (rule not_after_strict)
    qed
    have upd: "map (\<lambda>r. if task_id r = task_id row
                         then r\<lparr>status := 1, workerId := Some w, startedAt := Some now\<rparr> else r) ?rows
               = ?rows[i := row\<lparr>status := 1, workerId := Some w, startedAt := Some now\<rparr>]"
      using update_by_id [OF ids i(1),
          of "\<lambda>r. r\<lparr>status := 1, workerId := Some w, startedAt := Some now\<rparr>"] i(2)
      by simp
    have res: "claimNextPdf w now q =
        (Some ((?rows ! i)\<lparr>status := 1, workerId := Some w, startedAt := Some now,
                   completedAt := None, error := None\<rparr>),
         q\<lparr>pdf_tasks := ?rows
              [i := (?rows ! i)\<lparr>status := 1, workerId := Some w, startedAt := Some now\<rparr>]\<rparr>)"
      using Some upd i(2) by (simp add: claimNextPdf_def)
    have "filter (\<lambda>r. status r = 0) ?rows \<noteq> []"
      using row(1,2) by (auto simp: filter_empty_conv)
    then have ne: "filter (\<lambda>r. searchTerm r = this_searchTerm q \<and> status r = 0) ?rows \<noteq> []"
      by (simp add: pend)
    have "searchTerm (?rows ! i) = this_searchTerm q" "status (?rows ! i) = 0"
      using row(1,2) i(2) own by simp_all
    then have "\<exists>i < length ?rows.
          searchTerm (?rows ! i) = this_searchTerm q \<and> status (?rows ! i) = 0 \<and>
          (\<forall>j < length ?rows.
              j \<noteq> i \<and> searchTerm (?rows ! j) = this_searchTerm q \<and> status (?rows ! j) = 0
              \<longrightarrow> precedes (?rows ! i) (?rows ! j)) \<and>
          claimNextPdf w now q =
            (Some ((?rows ! i)\<lparr>status := 1, workerId := Some w, startedAt := Some now,
                                     completedAt := None, error := None\<rparr>),
             q\<lparr>pdf_tasks := ?rows
                  [i := (?rows ! i)\<lparr>status := 1, workerId := Some w, startedAt := Some now\<rparr>]\<rparr>)"
      using i(1) least res by (intro exI [of _ i]) simp
    with ne show ?thesis by simp
  qed
qed

lemmas queue_eval =
  new_TaskQueue_def insertPdfs_def insert_or_ignore_def conflicts_def new_row_def
  claimNextPdf_def select_next_pending_def precedes_def markComplete_def markFailed_def
  resetInProgress_def initialize_def setMetadata_def getMetadata_def run_ops_def

lemmas progress_eval = getProgress_def sum_case_status_def sql_sum_def sql_count_def or_zero_def

theorem claimNextPdf_lowest_pending_of_term_witness:
  "schema_ok (pdf_tasks sample_queue) \<and>
   list_all (\<lambda>r. searchTerm r = this_searchTerm sample_queue) (pdf_tasks sample_queue) \<and>
   map_option task_id (fst (claimNextPdf ''worker-1'' 20 sample_queue)) = Some ''t2'' \<and>
   map (\<lambda>r. (task_id r, status r, workerId r, startedAt r))
     (pdf_tasks (snd (claimNextPdf ''worker-1'' 20 sample_queue)))
     = [(''t1'', 0, None, None), (''t2'', 1, Some ''worker-1'', Some 20), (''t3'', 0, None, None)] \<and>
   claimNextPdf ''worker-2'' 30 (new_TaskQueue ''alpha'') = (None, new_TaskQueue ''alpha'')"
  using claimNextPdf_lowest_pending_of_term [of sample_queue "''worker-1''" 20]
    claimNextPdf_lowest_pending_of_term [of "new_TaskQueue ''alpha''" "''worker-2''" 30]
  by (simp add: task_def sample_queue_def queue_eval schema_ok_def)

text \<open>
  The query has no condition on \<^verbatim>\<open>search_term\<close>; while every row of the file carries the
  handle's search term, the pending rows of the file are the pending rows of that term.
\<close>

lemma pending_rows_of_own_term:
  assumes "list_all (\<lambda>r. searchTerm r = this_searchTerm q) (pdf_tasks q)"
  shows "filter (\<lambda>r. searchTerm r = this_searchTerm q \<and> status r = 0) (pdf_tasks q)
         = filter (\<lambda>r. status r = 0) (pdf_tasks q)"
  using assms by (auto simp: list_all_iff intro: filter_cong)

text \<open>The rows a claim touches: those with the id of the returned task.\<close>

lemma claimed_row_present:
  assumes "claimNextPdf worker now q = (Some pdf, q1)"
  shows "list_ex (\<lambda>r. task_id r = task_id pdf) (pdf_tasks q1)"
proof -
  obtain row where row: "select_next_pending (pdf_tasks q) = Some row"
    using assms by (auto simp: claimNextPdf_def split: option.splits)
  then have "row \<in> set (pdf_tasks q)"
    using select_next_pending_Some by blast
  then have "row\<lparr>status := 1, workerId := Some worker, startedAt := Some now\<rparr>
       \<in> set (pdf_tasks q1) \<and> task_id pdf = task_id row"
    using assms row by (auto simp: claimNextPdf_def image_iff)
  then show ?thesis
    by (auto simp: list_ex_iff intro!: bexI [of _ "row\<lparr>status := 1, workerId := Some worker, startedAt := Some now\<rparr>"])
qed

lemma list_ex_map_if:
  "list_ex (\<lambda>r. k r = v) rows \<Longrightarrow> (\<And>r. k (g r) = k r) \<Longrightarrow>
   list_ex (\<lambda>r. k r = v) (map (\<lambda>r. if k r = v then g r else r) rows)"
  by (induction rows) auto

lemma claimed_rows_owned:
  assumes "claimNextPdf w t0 q = (Some t, q1)"
  shows "list_ex (\<lambda>r. task_id r = task_id t) (pdf_tasks q1) \<and>
         list_all (\<lambda>r. task_id r \<noteq> task_id t \<or> (status r = 1 \<and> workerId r = Some w)) (pdf_tasks q1)"
proof -
  obtain row where row: "select_next_pending (pdf_tasks q) = Some row"
    using assms by (auto simp: claimNextPdf_def split: option.splits)
  have t: "task_id t = task_id row"
    and q1: "pdf_tasks q1 = map (\<lambda>r. if task_id r = task_id row
                 then r\<lparr>status := 1, workerId := Some w, startedAt := Some t0\<rparr> else r) (pdf_tasks q)"
    using assms row by (auto simp: claimNextPdf_def)
  have "list_all (\<lambda>r. task_id r \<noteq> task_id t \<or> (status r = 1 \<and> workerId r = Some w)) (pdf_tasks q1)"
    unfolding q1 t by (auto simp: list_all_iff)
  then show ?thesis
    using claimed_row_present [OF assms] by simp
qed

section \<open>Owner and status\<close>







section \<open>Idempotent insertion\<close>

lemma insert_or_ignore_extends:
  "\<exists>new. insert_or_ignore now rows pdf = rows @ new \<and> set new \<subseteq> {new_row now pdf}"
  by (simp add: insert_or_ignore_def)

lemma foldl_insert_extends:
  "\<exists>new. foldl (insert_or_ignore now) rows pdfs = rows @ new \<and> set new \<subseteq> new_row now ` set pdfs"
proof (induction pdfs arbitrary: rows)
  case Nil
  show ?case by simp
next
  case (Cons a pdfs)
  obtain n1 where n1: "insert_or_ignore now rows a = rows @ n1" "set n1 \<subseteq> {new_row now a}"
    using insert_or_ignore_extends by blast
  obtain n2 where n2: "foldl (insert_or_ignore now) (rows @ n1) pdfs = (rows @ n1) @ n2"
      "set n2 \<subseteq> new_row now ` set pdfs"
    using Cons.IH by blast
  have "foldl (insert_or_ignore now) rows (a # pdfs) = rows @ (n1 @ n2)"
    using n1 n2 by simp
  moreover have "set (n1 @ n2) \<subseteq> new_row now ` set (a # pdfs)"
    using n1 n2 by auto
  ultimately show ?case by blast
qed

lemma conflict_kept:
  "list_ex (conflicts p) rows \<Longrightarrow> list_ex (conflicts p) (foldl (insert_or_ignore now) rows pdfs)"
  using foldl_insert_extends [of now rows pdfs] by (auto simp: list_ex_iff)

lemma conflicts_new_row: "conflicts p (new_row now p)"
  by (simp add: conflicts_def new_row_def)

lemma conflict_after_insert: "list_ex (conflicts p) (insert_or_ignore now rows p)"
  by (simp add: insert_or_ignore_def conflicts_new_row)

lemma conflict_after_batch:
  "p \<in> set pdfs \<Longrightarrow> list_ex (conflicts p) (foldl (insert_or_ignore now) rows pdfs)"
proof (induction pdfs arbitrary: rows)
  case Nil
  then show ?case by simp
next
  case (Cons a pdfs)
  show ?case
  proof (cases "p = a")
    case True
    then show ?thesis using conflict_kept [OF conflict_after_insert] by simp
  next
    case False
    then have "p \<in> set pdfs" using Cons.prems by simp
    then show ?thesis using Cons.IH by simp
  qed
qed

lemma all_conflict_noop:
  "\<forall>p \<in> set pdfs. list_ex (conflicts p) rows \<Longrightarrow> foldl (insert_or_ignore now) rows pdfs = rows"
  by (induction pdfs) (simp_all add: insert_or_ignore_def)

lemma insertPdfs_twice:
  "insertPdfs now' pdfs (insertPdfs now pdfs q) = insertPdfs now pdfs q"
proof -
  have "foldl (insert_or_ignore now') (foldl (insert_or_ignore now) (pdf_tasks q) pdfs) pdfs
        = foldl (insert_or_ignore now) (pdf_tasks q) pdfs"
    by (rule all_conflict_noop) (simp add: conflict_after_batch)
  then show ?thesis by (simp add: insertPdfs_def)
qed

lemma rows_for_insert_known:
  assumes "rows_for t n rows \<noteq> []"
  shows "rows_for t n (insert_or_ignore now rows pdf) = rows_for t n rows"
proof (cases "list_ex (conflicts pdf) rows")
  case True
  then show ?thesis by (simp add: insert_or_ignore_def)
next
  case False
  obtain r where r: "r \<in> set rows" "searchTerm r = t" "pdfName r = n"
    using assms by (auto simp: rows_for_def filter_empty_conv)
  with False have "\<not> (searchTerm pdf = t \<and> pdfName pdf = n)"
    by (auto simp: list_ex_iff conflicts_def)
  then show ?thesis using False
    by (auto simp: insert_or_ignore_def rows_for_def new_row_def)
qed

lemma rows_for_batch_known:
  "rows_for t n rows \<noteq> [] \<Longrightarrow>
   rows_for t n (foldl (insert_or_ignore now) rows pdfs) = rows_for t n rows"
proof (induction pdfs arbitrary: rows)
  case Nil
  show ?case by simp
next
  case (Cons a pdfs)
  have eq: "rows_for t n (insert_or_ignore now rows a) = rows_for t n rows"
    using Cons.prems by (rule rows_for_insert_known)
  then have "rows_for t n (insert_or_ignore now rows a) \<noteq> []" using Cons.prems by simp
  from Cons.IH [OF this] eq show ?case by simp
qed

lemma schema_ok_insert: "schema_ok rows \<Longrightarrow> schema_ok (insert_or_ignore now rows pdf)"
  by (auto simp: schema_ok_def insert_or_ignore_def list_ex_iff conflicts_def new_row_def)

lemma schema_ok_batch: "schema_ok rows \<Longrightarrow> schema_ok (foldl (insert_or_ignore now) rows pdfs)"
  by (induction pdfs arbitrary: rows) (simp_all add: schema_ok_insert)

lemma distinct_map_filter_le1:
  "distinct (map f xs) \<Longrightarrow> length (filter (\<lambda>x. f x = k) xs) \<le> 1"
  by (induction xs) (auto simp: filter_empty_conv image_iff)

lemma schema_ok_one_row:
  assumes "schema_ok rows" "rows_for t n rows \<noteq> []"
  shows "\<exists>r. rows_for t n rows = [r]"
proof -
  have "rows_for t n rows = filter (\<lambda>r. (searchTerm r, pdfName r) = (t, n)) rows"
    by (simp add: rows_for_def)
  then have "length (rows_for t n rows) \<le> 1"
    using assms(1) distinct_map_filter_le1 [of "\<lambda>r. (searchTerm r, pdfName r)" rows "(t, n)"]
    by (simp add: schema_ok_def)
  with assms(2) show ?thesis
    by (cases "rows_for t n rows") auto
qed

lemma ids_identify_subset: "ids_identify es \<Longrightarrow> set es' \<subseteq> set es \<Longrightarrow> ids_identify es'"
  unfolding ids_identify_def list_all_iff by blast

lemma entry_new_row: "entry (new_row now p) = entry p"
  by (simp add: entry_def new_row_def)

lemma conflicts_iff_key:
  assumes "ids_identify (map entry rows @ map entry (a # pdfs))"
  shows "list_ex (conflicts a) rows \<longleftrightarrow> rows_for (searchTerm a) (pdfName a) rows \<noteq> []"
proof -
  have "searchTerm r = searchTerm a \<and> pdfName r = pdfName a"
    if "r \<in> set rows" "task_id r = task_id a" for r
  proof -
    have "entry r \<in> set (map entry rows @ map entry (a # pdfs))"
         "entry a \<in> set (map entry rows @ map entry (a # pdfs))"
      using that(1) by simp_all
    then have "fst (entry r) \<noteq> fst (entry a) \<or> snd (entry r) = snd (entry a)"
      using assms unfolding ids_identify_def list_all_iff by blast
    then show ?thesis using that(2) by (simp add: entry_def)
  qed
  then show ?thesis
    by (auto simp: list_ex_iff conflicts_def rows_for_def filter_empty_conv)
qed

lemma insert_batch_new_keys:
  assumes "ids_identify (map entry rows @ map entry pdfs)" "p \<in> set pdfs"
    "rows_for (searchTerm p) (pdfName p) rows = []"
  shows "\<exists>p'. find (\<lambda>x. searchTerm x = searchTerm p \<and> pdfName x = pdfName p) pdfs = Some p' \<and>
           rows_for (searchTerm p) (pdfName p) (foldl (insert_or_ignore now) rows pdfs)
             = [new_row now p']"
  using assms
proof (induction pdfs arbitrary: rows)
  case Nil
  then show ?case by simp
next
  case (Cons a pdfs)
  let ?same = "\<lambda>x. searchTerm x = searchTerm p \<and> pdfName x = pdfName p"
  have key: "list_ex (conflicts a) rows \<longleftrightarrow> rows_for (searchTerm a) (pdfName a) rows \<noteq> []"
    using Cons.prems(1) by (rule conflicts_iff_key)
  show ?case
  proof (cases "?same a")
    case True
    then have "\<not> list_ex (conflicts a) rows"
      using key Cons.prems(3) by simp
    then have ins: "insert_or_ignore now rows a = rows @ [new_row now a]"
      by (simp add: insert_or_ignore_def)
    have "rows_for (searchTerm p) (pdfName p) (rows @ [new_row now a]) = [new_row now a]"
      using True Cons.prems(3) by (simp add: rows_for_def new_row_def)
    then have "rows_for (searchTerm p) (pdfName p)
          (foldl (insert_or_ignore now) (rows @ [new_row now a]) pdfs) = [new_row now a]"
      using rows_for_batch_known [of "searchTerm p" "pdfName p" "rows @ [new_row now a]" now pdfs]
      by simp
    then show ?thesis using True ins by simp
  next
    case False
    then have p: "p \<in> set pdfs" using Cons.prems(2) by auto
    let ?rows1 = "insert_or_ignore now rows a"
    have sub: "set (map entry ?rows1 @ map entry pdfs) \<subseteq> set (map entry rows @ map entry (a # pdfs))"
      by (auto simp: insert_or_ignore_def entry_new_row)
    have h: "ids_identify (map entry ?rows1 @ map entry pdfs)"
      using Cons.prems(1) sub by (rule ids_identify_subset)
    have none: "rows_for (searchTerm p) (pdfName p) ?rows1 = []"
      using False Cons.prems(3) by (auto simp: insert_or_ignore_def rows_for_def new_row_def)
    have "find ?same (a # pdfs) = find ?same pdfs"
      using False by auto
    moreover have "foldl (insert_or_ignore now) rows (a # pdfs) = foldl (insert_or_ignore now) ?rows1 pdfs"
      by simp
    ultimately show ?thesis
      using Cons.IH [OF h p none] by (simp only:)
  qed
qed

lemma take_old_rows:
  "take (length rows) (foldl (insert_or_ignore now) rows pdfs) = rows"
  using foldl_insert_extends [of now rows pdfs] by auto

text \<open>
  C4: for every store state that satisfies the schema's constraints and every batch, ids
  identifying tasks (two items, stored or in the batch, with the same id have the same
  search term and name): inserting the batch a second time changes nothing; the
  constraints still hold and the rows already stored stay as and where they are; for an
  item whose key \<open>(searchTerm, pdfName)\<close> is present, the key keeps its one row, unchanged,
  so its fields are those of the first insert; for an item whose key is new, the key gets
  exactly one row, made from the first item of the batch with that key, with status 0
  and \<open>createdAt = now\<close>.
\<close>

theorem insertPdfs_idempotent_per_key:
  assumes "schema_ok (pdf_tasks q)"
    and "ids_identify (map entry (pdf_tasks q) @ map entry pdfs)"
  shows "insertPdfs now' pdfs (insertPdfs now pdfs q) = insertPdfs now pdfs q \<and>
     schema_ok (pdf_tasks (insertPdfs now pdfs q)) \<and>
     take (length (pdf_tasks q)) (pdf_tasks (insertPdfs now pdfs q)) = pdf_tasks q \<and>
     (\<forall>p \<in> set pdfs.
        (rows_for (searchTerm p) (pdfName p) (pdf_tasks q) \<noteq> [] \<longrightarrow>
           (\<exists>r. rows_for (searchTerm p) (pdfName p) (pdf_tasks q) = [r] \<and>
                rows_for (searchTerm p) (pdfName p) (pdf_tasks (insertPdfs now pdfs q)) = [r])) \<and>
        (rows_for (searchTerm p) (pdfName p) (pdf_tasks q) = [] \<longrightarrow>
           (\<exists>p'. find (\<lambda>x. searchTerm x = searchTerm p \<and> pdfName x = pdfName p) pdfs = Some p' \<and>
                 rows_for (searchTerm p) (pdfName p) (pdf_tasks (insertPdfs now pdfs q))
                   = [new_row now p'] \<and>
                 status (new_row now p') = 0 \<and> createdAt (new_row now p') = now)))"
proof -
  have known: "\<exists>r. rows_for t n (pdf_tasks q) = [r] \<and>
                   rows_for t n (pdf_tasks (insertPdfs now pdfs q)) = [r]"
    if "rows_for t n (pdf_tasks q) \<noteq> []" for t n
    using that assms(1) schema_ok_one_row [of "pdf_tasks q" t n]
    by (auto simp: insertPdfs_def rows_for_batch_known)
  have fresh: "\<exists>p'. find (\<lambda>x. searchTerm x = searchTerm p \<and> pdfName x = pdfName p) pdfs = Some p' \<and>
                 rows_for (searchTerm p) (pdfName p) (pdf_tasks (insertPdfs now pdfs q))
                   = [new_row now p'] \<and>
                 status (new_row now p') = 0 \<and> createdAt (new_row now p') = now"
    if "p \<in> set pdfs" "rows_for (searchTerm p) (pdfName p) (pdf_tasks q) = []" for p
    using insert_batch_new_keys [OF assms(2) that, of now]
    by (auto simp: insertPdfs_def new_row_def)
  have "schema_ok (pdf_tasks (insertPdfs now pdfs q))"
    using assms(1) by (simp add: insertPdfs_def schema_ok_batch)
  moreover have "take (length (pdf_tasks q)) (pdf_tasks (insertPdfs now pdfs q)) = pdf_tasks q"
    by (simp add: insertPdfs_def take_old_rows)
  ultimately show ?thesis
    using insertPdfs_twice [of now' pdfs now q] known fresh by blast
qed

theorem insertPdfs_idempotent_per_key_witness:
  "schema_ok (pdf_tasks sample_queue) \<and>
   ids_identify (map entry (pdf_tasks sample_queue) @
      map entry [task ''t7'' ''alpha'' 4 ''b.pdf'', task ''t8'' ''alpha'' 4 ''d.pdf'',
                 task ''t9'' ''alpha'' 5 ''d.pdf'']) \<and>
   rows_for ''alpha'' ''b.pdf'' (pdf_tasks sample_queue)
     = [new_row 10 (task ''t2'' ''alpha'' 1 ''b.pdf'')] \<and>
   rows_for ''alpha'' ''b.pdf''
      (pdf_tasks (insertPdfs 50
         [task ''t7'' ''alpha'' 4 ''b.pdf'', task ''t8'' ''alpha'' 4 ''d.pdf'',
          task ''t9'' ''alpha'' 5 ''d.pdf''] sample_queue))
     = [new_row 10 (task ''t2'' ''alpha'' 1 ''b.pdf'')] \<and>
   rows_for ''alpha'' ''d.pdf''
      (pdf_tasks (insertPdfs 50
         [task ''t7'' ''alpha'' 4 ''b.pdf'', task ''t8'' ''alpha'' 4 ''d.pdf'',
          task ''t9'' ''alpha'' 5 ''d.pdf''] sample_queue))
     = [new_row 50 (task ''t8'' ''alpha'' 4 ''d.pdf'')] \<and>
   map task_id (pdf_tasks (insertPdfs 50
         [task ''t7'' ''alpha'' 4 ''b.pdf'', task ''t8'' ''alpha'' 4 ''d.pdf'',
          task ''t9'' ''alpha'' 5 ''d.pdf''] sample_queue))
     = [''t1'', ''t2'', ''t3'', ''t8'']"
  using insertPdfs_idempotent_per_key
    [of sample_queue
        "[task ''t7'' ''alpha'' 4 ''b.pdf'', task ''t8'' ''alpha'' 4 ''d.pdf'',
          task ''t9'' ''alpha'' 5 ''d.pdf'']" 60 50]
  by (simp add: task_def sample_queue_def queue_eval rows_for_def schema_ok_def
      ids_identify_def entry_def)

section \<open>States reached from a fresh queue\<close>

lemma schema_ok_map:
  assumes "\<And>r. task_id (f r) = task_id r" "\<And>r. searchTerm (f r) = searchTerm r"
    "\<And>r. pdfName (f r) = pdfName r"
  shows "schema_ok (map f rows) = schema_ok rows"
proof -
  have "map task_id (map f rows) = map task_id rows"
    "map (\<lambda>r. (searchTerm r, pdfName r)) (map f rows) = map (\<lambda>r. (searchTerm r, pdfName r)) rows"
    using assms by simp_all
  then show ?thesis by (simp only: schema_ok_def)
qed

lemma same_id_same_row:
  "distinct (map task_id rows) \<Longrightarrow> r \<in> set rows \<Longrightarrow> r' \<in> set rows \<Longrightarrow>
   task_id r = task_id r' \<Longrightarrow> r = r'"
  by (metis distinct_map inj_on_def)

lemma store_inv_claim:
  assumes "store_inv (pdf_tasks q)"
  shows "store_inv (pdf_tasks (snd (claimNextPdf w now q)))"
proof (cases "select_next_pending (pdf_tasks q)")
  case None
  then show ?thesis using assms by (simp add: claimNextPdf_def)
next
  case (Some row)
  let ?f = "\<lambda>r. if task_id r = task_id row
                then r\<lparr>status := 1, workerId := Some w, startedAt := Some now\<rparr> else r"
  have rows': "pdf_tasks (snd (claimNextPdf w now q)) = map ?f (pdf_tasks q)"
    using Some by (simp add: claimNextPdf_def)
  have row: "row \<in> set (pdf_tasks q)" "status row = 0"
    using select_next_pending_Some [OF Some] by simp_all
  have s: "schema_ok (map ?f (pdf_tasks q))"
    using assms by (subst schema_ok_map) (simp_all add: store_inv_def)
  have "open_row_clean (?f r)" if "r \<in> set (pdf_tasks q)" for r
  proof (cases "task_id r = task_id row")
    case True
    then have "r = row"
      using assms that row(1) same_id_same_row [of "pdf_tasks q" r row]
      by (simp add: store_inv_def schema_ok_def)
    moreover have "open_row_clean row"
      using assms row(1) by (simp add: store_inv_def list_all_iff)
    ultimately show ?thesis using row(2) by (simp add: open_row_clean_def)
  next
    case False
    then show ?thesis using assms that by (simp add: store_inv_def list_all_iff)
  qed
  then have "list_all open_row_clean (map ?f (pdf_tasks q))"
    unfolding list_all_iff set_map by blast
  with s show ?thesis by (simp add: rows' store_inv_def)
qed

lemma store_inv_apply_op:
  assumes "store_inv (pdf_tasks q)"
  shows "store_inv (pdf_tasks (apply_op q op))"
proof (cases op)
  case Initialize
  then show ?thesis by (simp add: initialize_def store_inv_def schema_ok_def)
next
  case (InsertPdfs now pdfs)
  then show ?thesis using assms
    by (simp add: insertPdfs_def store_inv_def schema_ok_batch rows_insertPdfs open_row_clean_def
        new_row_def)
next
  case (ClaimNextPdf w now)
  then show ?thesis using assms by (simp add: store_inv_claim)
next
  case (MarkComplete now taskId)
  have "schema_ok (pdf_tasks (markComplete now taskId q))"
    using assms unfolding markComplete_def by (simp add: schema_ok_map store_inv_def)
  moreover have "list_all open_row_clean (pdf_tasks (markComplete now taskId q))"
    using assms by (auto simp: markComplete_def store_inv_def list_all_iff open_row_clean_def)
  ultimately show ?thesis using MarkComplete by (simp add: store_inv_def)
next
  case (MarkFailed now taskId err)
  have "schema_ok (pdf_tasks (markFailed now taskId err q))"
    using assms unfolding markFailed_def by (simp add: schema_ok_map store_inv_def)
  moreover have "list_all open_row_clean (pdf_tasks (markFailed now taskId err q))"
    using assms by (auto simp: markFailed_def store_inv_def list_all_iff open_row_clean_def)
  ultimately show ?thesis using MarkFailed by (simp add: store_inv_def)
next
  case ResetInProgress
  have "schema_ok (pdf_tasks (resetInProgress q))"
    using assms unfolding resetInProgress_def by (simp add: schema_ok_map store_inv_def)
  moreover have "list_all open_row_clean (pdf_tasks (resetInProgress q))"
    using assms by (auto simp: resetInProgress_def store_inv_def list_all_iff open_row_clean_def)
  ultimately show ?thesis using ResetInProgress by (simp add: store_inv_def)
next
  case (SetMetadata key v)
  then show ?thesis using assms by (simp add: setMetadata_def)
qed

lemma store_inv_reachable: "store_inv (pdf_tasks (run_ops ops (new_TaskQueue term)))"
proof (induction ops rule: rev_induct)
  case Nil
  show ?case by (simp add: run_ops_def new_TaskQueue_def store_inv_def schema_ok_def)
next
  case (snoc op ops)
  then show ?case by (simp add: run_ops_snoc store_inv_apply_op)
qed

text \<open>
  In a state reached from a fresh queue the ids are distinct, and the record that
  \<^verbatim>\<open>claimNextPdf\<close> returns is the row as it stands in the table after the claim.
\<close>

lemma reachable_ids_distinct: "distinct (map task_id (pdf_tasks (run_ops ops (new_TaskQueue term))))"
  using store_inv_reachable [of ops "term"] by (simp add: store_inv_def schema_ok_def)

lemma claimed_task_is_stored:
  assumes "claimNextPdf w now (run_ops ops (new_TaskQueue term)) = (Some t, q')"
  shows "t \<in> set (pdf_tasks q') \<and> status t = 1 \<and> workerId t = Some w \<and> startedAt t = Some now"
proof -
  let ?q = "run_ops ops (new_TaskQueue term)"
  obtain row where sel: "select_next_pending (pdf_tasks ?q) = Some row"
    using assms by (auto simp: claimNextPdf_def split: option.splits)
  have row: "row \<in> set (pdf_tasks ?q)" "status row = 0"
    using select_next_pending_Some [OF sel] by simp_all
  have "open_row_clean row"
    using store_inv_reachable [of ops "term"] row(1) by (simp add: store_inv_def list_all_iff)
  then have clean: "completedAt row = None" "error row = None"
    using row(2) by (simp_all add: open_row_clean_def)
  have t: "t = row\<lparr>status := 1, workerId := Some w, startedAt := Some now\<rparr>"
    using assms sel clean by (auto simp: claimNextPdf_def)
  have "row\<lparr>status := 1, workerId := Some w, startedAt := Some now\<rparr> \<in> set (pdf_tasks q')"
    using assms sel row(1) by (auto simp: claimNextPdf_def image_iff intro!: bexI [of _ row])
  then show ?thesis using t by simp
qed

section \<open>Queues fed by the producer\<close>

text \<open>
  The decimal text of an integer holds no underscore, so the id the producer builds
  determines the file name between the page number and the time stamp: within one search
  term, two produced tasks with the same id have the same name.
\<close>

lemma digit_char_no_underscore: "d < 10 \<Longrightarrow> digit_char d \<noteq> CHR ''_''"
proof -
  assume "d < 10"
  then have "d \<in> set [0..<10]" by simp
  then have "d = 0 \<or> d = 1 \<or> d = 2 \<or> d = 3 \<or> d = 4 \<or> d = 5 \<or> d = 6 \<or> d = 7 \<or> d = 8 \<or> d = 9"
    by (simp add: upt_conv_Cons) arith
  then show ?thesis
    by (auto simp: digit_char_def)
qed

lemma decimal_no_underscore: "CHR ''_'' \<notin> set (decimal n)"
proof (induction n rule: decimal.induct)
  case (1 n)
  show ?case
  proof (cases "n < 10")
    case True
    then have "decimal n = [digit_char n]"
      by (subst decimal.simps) (simp del: decimal.simps)
    then show ?thesis
      using digit_char_no_underscore [OF True] by (simp del: decimal.simps)
  next
    case False
    then have "decimal n = decimal (n div 10) @ [digit_char (n mod 10)]"
      by (subst decimal.simps) (simp del: decimal.simps)
    moreover have "CHR ''_'' \<notin> set (decimal (n div 10))"
      using False 1 by (simp del: decimal.simps)
    moreover have "digit_char (n mod 10) \<noteq> CHR ''_''"
      by (rule digit_char_no_underscore) simp
    ultimately show ?thesis
      by (simp del: decimal.simps)
  qed
qed

lemma show_int_no_underscore: "CHR ''_'' \<notin> set (show_int i)"
  by (simp add: show_int_def decimal_no_underscore del: decimal.simps)

lemma split_at_first:
  "c \<notin> set a \<Longrightarrow> c \<notin> set b \<Longrightarrow> a @ c # x = b @ c # y \<Longrightarrow> a = b \<and> x = y"
proof (induction a arbitrary: b)
  case Nil
  show ?case
  proof (cases b)
    case Nil
    then show ?thesis using Nil.prems(3) by simp
  next
    case (Cons h' b')
    then have "c = h'" using Nil.prems(3) by simp
    then show ?thesis using Nil.prems(2) Cons by simp
  qed
next
  case (Cons h a)
  show ?case
  proof (cases b)
    case Nil
    then have "h = c" using Cons.prems(3) by simp
    then show ?thesis using Cons.prems(1) by simp
  next
    case (Cons h' b')
    then have eq: "h = h'" "a @ c # x = b' @ c # y"
      using Cons.prems(3) by simp_all
    have "c \<notin> set a" "c \<notin> set b'"
      using Cons.prems(1,2) \<open>b = h' # b'\<close> by simp_all
    from Cons.IH [OF this eq(2)] show ?thesis
      using eq(1) \<open>b = h' # b'\<close> by simp
  qed
qed

lemma split_at_last:
  assumes "c \<notin> set a" "c \<notin> set b" "x @ c # a = y @ c # b"
  shows "x = y \<and> a = b"
proof -
  have "rev a @ c # rev x = rev b @ c # rev y"
    using arg_cong [OF assms(3), of rev] by simp
  then have "rev a = rev b \<and> rev x = rev y"
    using assms(1,2) by (intro split_at_first) simp_all
  then show ?thesis by simp
qed

lemma produced_ids_name_keys:
  assumes "term @ ''_'' @ show_int p1 @ ''_'' @ n1 @ ''_'' @ show_int s1
         = term @ ''_'' @ show_int p2 @ ''_'' @ n2 @ ''_'' @ show_int s2"
  shows "n1 = n2"
proof -
  have "show_int p1 @ CHR ''_'' # (n1 @ ''_'' @ show_int s1)
      = show_int p2 @ CHR ''_'' # (n2 @ ''_'' @ show_int s2)"
    using assms by simp
  then have "n1 @ ''_'' @ show_int s1 = n2 @ ''_'' @ show_int s2"
    using split_at_first [OF show_int_no_underscore show_int_no_underscore] by blast
  then have "n1 @ CHR ''_'' # show_int s1 = n2 @ CHR ''_'' # show_int s2"
    by simp
  then show ?thesis
    using split_at_last [OF show_int_no_underscore show_int_no_underscore] by blast
qed

lemma produced_ids_identify:
  assumes "list_all (produced_for term) es"
  shows "ids_identify es"
proof -
  have "snd a = snd b" if "a \<in> set es" "b \<in> set es" "fst a = fst b" for a b
  proof -
    have "produced_for term a" "produced_for term b"
      using assms that(1,2) by (simp_all add: list_all_iff)
    then obtain p1 n1 s1 p2 n2 s2
      where a: "a = (term @ ''_'' @ show_int p1 @ ''_'' @ n1 @ ''_'' @ show_int s1, term, n1)"
        and b: "b = (term @ ''_'' @ show_int p2 @ ''_'' @ n2 @ ''_'' @ show_int s2, term, n2)"
      unfolding produced_for_def by blast
    have "n1 = n2"
      using that(3) unfolding a b fst_conv by (rule produced_ids_name_keys)
    then show ?thesis by (simp add: a b)
  qed
  then show ?thesis
    unfolding ids_identify_def list_all_iff by blast
qed

text \<open>
  Every task \<^verbatim>\<open>extractPdfsFromJson\<close> returns carries the coordinator's search term and an
  id of the producer's form.
\<close>

lemma extract_produced:
  "list_all (\<lambda>p. produced_for term (entry p) \<and> searchTerm p = term)
     (extractPdfsFromJson term timestamp hits page)"
  by (auto simp: list_all_iff extractPdfsFromJson_def task_of_hit_def entry_def produced_for_def)

lemma entries_apply_op:
  assumes "\<forall>r \<in> set (pdf_tasks q). P (entry r)" "\<forall>p \<in> set (inserted op). P (entry p)"
  shows "\<forall>r \<in> set (pdf_tasks (apply_op q op)). P (entry r)"
proof (cases op)
  case (InsertPdfs now pdfs)
  have "set (foldl (insert_or_ignore now) (pdf_tasks q) pdfs)
        \<subseteq> set (pdf_tasks q) \<union> new_row now ` set pdfs"
    using foldl_insert_extends [of now "pdf_tasks q" pdfs] by auto
  then show ?thesis
    using assms InsertPdfs by (auto simp: insertPdfs_def entry_new_row)
next
  case (ClaimNextPdf w now)
  then show ?thesis using assms(1) pdf_tasks_claimNextPdf [of w now q]
    by (auto simp: entry_def)
qed (use assms(1) in \<open>auto simp: initialize_def markComplete_def markFailed_def
       resetInProgress_def setMetadata_def entry_def\<close>)

lemma entries_reachable:
  assumes "\<forall>op \<in> set ops. \<forall>p \<in> set (inserted op). P (entry p)"
  shows "\<forall>r \<in> set (pdf_tasks (run_ops ops (new_TaskQueue term))). P (entry r)"
  using assms
proof (induction ops rule: rev_induct)
  case Nil
  show ?case by (simp add: run_ops_def new_TaskQueue_def)
next
  case (snoc op ops)
  have "\<forall>r \<in> set (pdf_tasks (run_ops ops (new_TaskQueue term))). P (entry r)"
    using snoc by simp
  moreover have "\<forall>p \<in> set (inserted op). P (entry p)"
    using snoc.prems by simp
  ultimately have "\<forall>r \<in> set (pdf_tasks (apply_op (run_ops ops (new_TaskQueue term)) op)). P (entry r)"
    by (rule entries_apply_op)
  then show ?case
    by (simp only: run_ops_snoc)
qed

lemma this_searchTerm_apply_op: "this_searchTerm (apply_op q op) = this_searchTerm q"
  by (cases op) (simp_all add: initialize_def insertPdfs_def claimNextPdf_def markComplete_def
      markFailed_def resetInProgress_def setMetadata_def split: option.splits)

lemma this_searchTerm_reachable: "this_searchTerm (run_ops ops (new_TaskQueue term)) = term"
  by (induction ops rule: rev_induct)
    (simp_all add: run_ops_def new_TaskQueue_def this_searchTerm_apply_op)

text \<open>
  A queue fed by the producer, whatever else is called on it: when every batch inserted
  consists of tasks the producer builds for the queue's search term, the table satisfies
  the schema's constraints, every row carries the handle's search term, and ids identify
  tasks among the rows and the items of a further such batch.
\<close>

lemma producer_fed_queue:
  assumes "\<forall>op \<in> set ops. \<forall>p \<in> set (inserted op). produced_for term (entry p) \<and> searchTerm p = term"
    and "\<forall>p \<in> set pdfs. produced_for term (entry p) \<and> searchTerm p = term"
  shows "schema_ok (pdf_tasks (run_ops ops (new_TaskQueue term))) \<and>
         list_all (\<lambda>r. searchTerm r = this_searchTerm (run_ops ops (new_TaskQueue term)))
           (pdf_tasks (run_ops ops (new_TaskQueue term))) \<and>
         ids_identify (map entry (pdf_tasks (run_ops ops (new_TaskQueue term))) @ map entry pdfs)"
proof -
  let ?q = "run_ops ops (new_TaskQueue term)"
  have "\<forall>op \<in> set ops. \<forall>p \<in> set (inserted op). (\<lambda>e. produced_for term e \<and> fst (snd e) = term) (entry p)"
    using assms(1) by (auto simp: entry_def)
  from entries_reachable [OF this, of "term"]
  have rows: "\<forall>r \<in> set (pdf_tasks ?q). produced_for term (entry r) \<and> searchTerm r = term"
    by (auto simp: entry_def)
  have "list_all (produced_for term) (map entry (pdf_tasks ?q) @ map entry pdfs)"
    using rows assms(2) by (auto simp: list_all_iff)
  then have "ids_identify (map entry (pdf_tasks ?q) @ map entry pdfs)"
    by (rule produced_ids_identify)
  moreover have "schema_ok (pdf_tasks ?q)"
    using store_inv_reachable [of ops "term"] by (simp add: store_inv_def)
  moreover have "list_all (\<lambda>r. searchTerm r = this_searchTerm ?q) (pdf_tasks ?q)"
    using rows by (simp add: list_all_iff this_searchTerm_reachable)
  ultimately show ?thesis by simp
qed

section \<open>Recovery and progress\<close>

lemma sum_list_all_zero: "(\<And>x. x \<in> set xs \<Longrightarrow> f x = (0::int)) \<Longrightarrow> sum_list (map f xs) = 0"
  by (induction xs) auto

text \<open>
  C6: after \<^verbatim>\<open>resetInProgress\<close> the progress of the handle's search term counts no row in
  progress; the call turns each row of that term with status 1 into a pending row without
  owner and start time, and leaves every other row, the metadata and the handle as they
  were.
\<close>

theorem resetInProgress_clears_in_progress:
  "inProgress (getProgress (resetInProgress q)) = 0 \<and>
   this_searchTerm (resetInProgress q) = this_searchTerm q \<and>
   metadata (resetInProgress q) = metadata q \<and>
   length (pdf_tasks (resetInProgress q)) = length (pdf_tasks q) \<and>
   (\<forall>i < length (pdf_tasks q).
      pdf_tasks (resetInProgress q) ! i =
        (if status (pdf_tasks q ! i) = 1 \<and> searchTerm (pdf_tasks q ! i) = this_searchTerm q
         then (pdf_tasks q ! i)\<lparr>status := 0, workerId := None, startedAt := None\<rparr>
         else pdf_tasks q ! i))"
proof -
  have "sum_list (map (\<lambda>r. if status r = 1 then 1 else 0)
          (filter (\<lambda>r. searchTerm r = this_searchTerm q) (pdf_tasks (resetInProgress q)))) = (0::int)"
    by (rule sum_list_all_zero) (auto simp: resetInProgress_def)
  then have "inProgress (getProgress (resetInProgress q)) = 0"
    by (simp add: getProgress_def Let_def sum_case_status_def sql_sum_def or_zero_def
        resetInProgress_def)
  then show ?thesis
    by (simp add: resetInProgress_def)
qed

theorem resetInProgress_clears_in_progress_witness:
  "inProgress (getProgress (snd (claimNextPdf ''worker-1'' 20 sample_queue))) = 1 \<and>
   inProgress (getProgress (resetInProgress (snd (claimNextPdf ''worker-1'' 20 sample_queue)))) = 0 \<and>
   resetInProgress (snd (claimNextPdf ''worker-1'' 20 sample_queue)) = sample_queue"
  using resetInProgress_clears_in_progress [of "snd (claimNextPdf ''worker-1'' 20 sample_queue)"]
  by (simp add: task_def sample_queue_def queue_eval progress_eval)

lemma counts_add_up:
  "list_all status_known rows \<Longrightarrow>
   sql_count rows =
     sum_list (map (\<lambda>r. if status r = 0 then 1 else 0) rows)
   + sum_list (map (\<lambda>r. if status r = 1 then 1 else 0) rows)
   + sum_list (map (\<lambda>r. if status r = 2 then 1 else 0) rows)
   + sum_list (map (\<lambda>r. if status r = 3 then 1 else 0) rows)"
  by (induction rows) (auto simp: sql_count_def status_known_def)

lemma status_known_apply_op:
  "list_all status_known (pdf_tasks q) \<Longrightarrow> list_all status_known (pdf_tasks (apply_op q op))"
proof (cases op)
  case (InsertPdfs now pdfs)
  assume "list_all status_known (pdf_tasks q)"
  then show ?thesis using InsertPdfs
    by (simp add: insertPdfs_def rows_insertPdfs status_known_def new_row_def)
next
  case (ClaimNextPdf w now)
  assume "list_all status_known (pdf_tasks q)"
  then show ?thesis using ClaimNextPdf pdf_tasks_claimNextPdf [of w now q]
    by (auto simp: list_all_iff status_known_def)
qed (auto simp: initialize_def markComplete_def markFailed_def resetInProgress_def setMetadata_def
       list_all_iff status_known_def)

lemma getProgress_conserved:
  assumes "list_all status_known (pdf_tasks q)"
  shows "total (getProgress q) =
     pending (getProgress q) + inProgress (getProgress q)
       + completed (getProgress q) + failed (getProgress q)"
proof -
  let ?rows = "filter (\<lambda>r. searchTerm r = this_searchTerm q) (pdf_tasks q)"
  have "list_all status_known ?rows"
    using assms by (simp add: list_all_iff)
  from counts_add_up [OF this] show ?thesis
    by (simp add: getProgress_def Let_def or_zero_Some or_zero_sum_case_status)
qed

text \<open>
  C7: in every state reached from a fresh queue by the public methods, the counts of
  \<^verbatim>\<open>getProgress\<close> satisfy \<open>total = pending + inProgress + completed + failed\<close>.
\<close>

theorem progress_conservation:
  "total (getProgress (run_ops ops (new_TaskQueue term))) =
     pending (getProgress (run_ops ops (new_TaskQueue term)))
   + inProgress (getProgress (run_ops ops (new_TaskQueue term)))
   + completed (getProgress (run_ops ops (new_TaskQueue term)))
   + failed (getProgress (run_ops ops (new_TaskQueue term)))"
proof -
  have "list_all status_known (pdf_tasks (run_ops ops (new_TaskQueue term)))"
  proof (induction ops rule: rev_induct)
    case Nil
    show ?case by (simp add: run_ops_def new_TaskQueue_def)
  next
    case (snoc op ops)
    then show ?case by (simp add: run_ops_snoc status_known_apply_op)
  qed
  then show ?thesis
    by (rule getProgress_conserved)
qed

theorem progress_conservation_sample:
  "getProgress (run_ops
      [InsertPdfs 10 [task ''t1'' ''alpha'' 1 ''a.pdf'', task ''t2'' ''alpha'' 1 ''b.pdf'',
                      task ''t3'' ''alpha'' 2 ''c.pdf'', task ''t4'' ''alpha'' 2 ''d.pdf''],
       ClaimNextPdf ''worker-1'' 20, ClaimNextPdf ''worker-2'' 21, ClaimNextPdf ''worker-1'' 22,
       MarkComplete 30 ''t1'', MarkFailed 31 ''t2'' ''HTTP 404'']
      (new_TaskQueue ''alpha''))
   = \<lparr>total = 4, pending = 1, inProgress = 1, completed = 1, failed = 1\<rparr>"
  using progress_conservation
    [of "[InsertPdfs 10 [task ''t1'' ''alpha'' 1 ''a.pdf'', task ''t2'' ''alpha'' 1 ''b.pdf'',
                      task ''t3'' ''alpha'' 2 ''c.pdf'', task ''t4'' ''alpha'' 2 ''d.pdf''],
       ClaimNextPdf ''worker-1'' 20, ClaimNextPdf ''worker-2'' 21, ClaimNextPdf ''worker-1'' 22,
       MarkComplete 30 ''t1'', MarkFailed 31 ''t2'' ''HTTP 404'']" "''alpha''"]
  by (simp add: task_def queue_eval progress_eval)

text \<open>
  C10: \<^verbatim>\<open>getProgress\<close> on a store with no task row for the handle's search term returns
  zero for all five counts: \<^verbatim>\<open>COUNT(*)\<close> is 0 and each \<^verbatim>\<open>NULL\<close> sum is coerced to 0.
\<close>

theorem getProgress_no_rows:
  assumes "filter (\<lambda>r. searchTerm r = this_searchTerm q) (pdf_tasks q) = []"
  shows "getProgress q = \<lparr>total = 0, pending = 0, inProgress = 0, completed = 0, failed = 0\<rparr>"
  using assms
  by (simp add: getProgress_def sum_case_status_no_rows sql_count_def or_zero_def)

theorem getProgress_no_rows_witness:
  "filter (\<lambda>r. searchTerm r = this_searchTerm foreign_queue) (pdf_tasks foreign_queue) = [] \<and>
   sum_case_status 0
     (filter (\<lambda>r. searchTerm r = this_searchTerm foreign_queue) (pdf_tasks foreign_queue)) = None \<and>
   getProgress foreign_queue
     = \<lparr>total = 0, pending = 0, inProgress = 0, completed = 0, failed = 0\<rparr>"
  using getProgress_no_rows [of foreign_queue]
  by (simp add: task_def foreign_queue_def queue_eval sum_case_status_no_rows)

section \<open>Retrying a locked database\<close>

lemma retry_from_Inr: "action attempt = Inr v \<Longrightarrow> retry_from action attempt zs = (Inr v, zs)"
  by (subst retry_from.simps) simp

lemma retry_from_fatal:
  "action attempt = Inl e \<Longrightarrow> \<not> isDatabaseLocked e \<Longrightarrow> retry_from action attempt zs = (Inl e, zs)"
  by (subst retry_from.simps) simp

lemma retry_from_exhausted:
  "action attempt = Inl e \<Longrightarrow> 4 \<le> attempt \<Longrightarrow> retry_from action attempt zs = (Inl e, zs)"
  by (subst retry_from.simps) simp

lemma retry_from_busy:
  "action attempt = Inl e \<Longrightarrow> isDatabaseLocked e \<Longrightarrow> attempt < 4 \<Longrightarrow>
   retry_from action attempt zs = retry_from action (Suc attempt) (zs @ [300 * Suc attempt])"
  by (subst retry_from.simps) simp

lemma retry_from_skip:
  assumes "\<forall>k<n. \<exists>e. action k = Inl e \<and> isDatabaseLocked e" "n \<le> 4" "m \<le> n"
  shows "retry_from action 0 [] = retry_from action m (lock_backoff m)"
  using assms(3)
proof (induction m)
  case 0
  show ?case by (simp add: lock_backoff_def)
next
  case (Suc m)
  then have m: "m < n" "m < 4" using assms(2) by simp_all
  then obtain e where e: "action m = Inl e" "isDatabaseLocked e" using assms(1) by blast
  have "retry_from action 0 [] = retry_from action m (lock_backoff m)" using Suc by simp
  also have "\<dots> = retry_from action (Suc m) (lock_backoff m @ [300 * Suc m])"
    using e m(2) by (rule retry_from_busy)
  also have "lock_backoff m @ [300 * Suc m] = lock_backoff (Suc m)"
    by (simp add: lock_backoff_def)
  finally show ?case .
qed

text \<open>
  While the action throws "database is locked", \<^verbatim>\<open>withDbLockRetry\<close> calls it again after
  sleeping 300 ms times the attempt number.  After \<open>n \<le> 4\<close> locked failures: if the next
  call returns, its value is returned, after the sleeps 300, 600, ..., \<open>300 n\<close> and with
  no further call; if it throws an error that is not a lock error, or throws at all on
  the fifth call (\<open>n = 4\<close>), that error is thrown on with no further sleep.
\<close>

lemma withDbLockRetry_outcomes:
  assumes "\<forall>k<n. \<exists>e. action k = Inl e \<and> isDatabaseLocked e" and "n \<le> 4"
  shows "(action n = Inr v \<longrightarrow> withDbLockRetry action = (Inr v, lock_backoff n)) \<and>
         (action n = Inl e \<and> (n = 4 \<or> \<not> isDatabaseLocked e) \<longrightarrow>
            withDbLockRetry action = (Inl e, lock_backoff n))"
proof -
  have skip: "withDbLockRetry action = retry_from action n (lock_backoff n)"
    using retry_from_skip [OF assms order_refl] by (simp add: withDbLockRetry_def)
  show ?thesis
    using skip by (auto simp: retry_from_Inr retry_from_fatal retry_from_exhausted)
qed

lemmas worker_eval =
  initial_worker_state_def db_call_def isDatabaseLocked_def lower_ascii_def message_or_unknown_def
  lock_backoff_def catch_entry_def

text \<open>
  The same for a database call of the worker: after \<open>n \<le> 4\<close> locked failures the call
  that goes through is made once, and five locked failures are given up on.
\<close>

lemma db_call_retried:
  assumes "\<forall>k<n. \<exists>e. fault k = Some e \<and> isDatabaseLocked e" "n \<le> 4" "fault n = None"
  shows "withDbLockRetry (db_call fault run) = (Inr (run n), lock_backoff n)"
proof -
  have "\<forall>k<n. \<exists>e. db_call fault run k = Inl e \<and> isDatabaseLocked e"
    using assms(1) by (auto simp: db_call_def)
  then have "retry_from (db_call fault run) 0 [] = retry_from (db_call fault run) n (lock_backoff n)"
    using assms(2) by (rule retry_from_skip) simp
  moreover have "db_call fault run n = Inr (run n)"
    using assms(3) by (simp add: db_call_def)
  ultimately show ?thesis
    by (simp add: withDbLockRetry_def retry_from_Inr)
qed

lemma db_call_exhausted:
  assumes "\<forall>k<4. \<exists>e. fault k = Some e \<and> isDatabaseLocked e" "fault 4 = Some e"
  shows "withDbLockRetry (db_call fault run) = (Inl e, lock_backoff 4)"
proof -
  have "\<forall>k<4. \<exists>e. db_call fault run k = Inl e \<and> isDatabaseLocked e"
    using assms(1) by (auto simp: db_call_def)
  then have "retry_from (db_call fault run) 0 [] = retry_from (db_call fault run) 4 (lock_backoff 4)"
    by (rule retry_from_skip) simp_all
  moreover have "db_call fault run 4 = Inl e"
    using assms(2) by (simp add: db_call_def)
  ultimately show ?thesis
    by (simp add: withDbLockRetry_def retry_from_exhausted)
qed

text \<open>
  These are all the ways a call of the worker can go: some number \<open>n \<le> 4\<close> of locked
  failures, and then a call that goes through or an error that is given up on.
\<close>

lemma db_call_gives_up:
  assumes "\<forall>k<n. \<exists>e. fault k = Some e \<and> isDatabaseLocked e" "n \<le> 4"
    "fault n = Some e" "n = 4 \<or> \<not> isDatabaseLocked e"
  shows "withDbLockRetry (db_call fault run) = (Inl e, lock_backoff n)"
proof -
  have "\<forall>k<n. \<exists>e. db_call fault run k = Inl e \<and> isDatabaseLocked e"
    using assms(1) by (auto simp: db_call_def)
  then have "retry_from (db_call fault run) 0 [] = retry_from (db_call fault run) n (lock_backoff n)"
    using assms(2) by (rule retry_from_skip) simp
  moreover have "db_call fault run n = Inl e"
    using assms(3) by (simp add: db_call_def)
  ultimately show ?thesis
    using assms(4) by (auto simp: withDbLockRetry_def retry_from_exhausted retry_from_fatal)
qed

lemma retry_outcomes:
  "\<exists>n. busy_before fault n \<and>
       (fault n = None \<or> (\<exists>e. fault n = Some e \<and> (n = 4 \<or> \<not> isDatabaseLocked e)))"
proof (cases "\<exists>k<4. \<not> (\<exists>e. fault k = Some e \<and> isDatabaseLocked e)")
  case True
  define n where "n = (LEAST k. \<not> (\<exists>e. fault k = Some e \<and> isDatabaseLocked e))"
  from True obtain k where k: "k < 4" "\<not> (\<exists>e. fault k = Some e \<and> isDatabaseLocked e)" by blast
  have n: "\<not> (\<exists>e. fault n = Some e \<and> isDatabaseLocked e)"
    unfolding n_def using k(2) by (rule LeastI)
  have "n \<le> k" unfolding n_def using k(2) by (rule Least_le)
  then have "n \<le> 4" using k(1) by simp
  moreover have "\<exists>e. fault j = Some e \<and> isDatabaseLocked e" if "j < n" for j
    using that not_less_Least [of j "\<lambda>k. \<not> (\<exists>e. fault k = Some e \<and> isDatabaseLocked e)"]
    unfolding n_def by blast
  ultimately have "busy_before fault n" by (simp add: busy_before_def)
  moreover have "fault n = None \<or> (\<exists>e. fault n = Some e \<and> (n = 4 \<or> \<not> isDatabaseLocked e))"
    using n by (cases "fault n") auto
  ultimately show ?thesis by blast
next
  case False
  then have "busy_before fault 4" by (simp add: busy_before_def)
  moreover have "fault 4 = None \<or> (\<exists>e. fault 4 = Some e \<and> (4 = (4::nat) \<or> \<not> isDatabaseLocked e))"
    by (cases "fault 4") auto
  ultimately show ?thesis by blast
qed

section \<open>The worker loop\<close>

lemma withDbLockRetry_first_ok:
  "fault 0 = None \<Longrightarrow> withDbLockRetry (db_call fault run) = (Inr (run 0), [])"
  by (simp add: withDbLockRetry_def retry_from_Inr db_call_def)


lemma download_attempts_step:
  "a \<le> 3 \<Longrightarrow> download_attempts dl a l c z =
     (case dl a of None \<Rightarrow> (True, l, 0, z)
      | Some e \<Rightarrow> download_attempts dl (a + 1) (message_or_unknown e) c
                    (if a < 3 then z @ [2000 * a] else z))"
  by (subst download_attempts.simps) simp

lemma download_attempts_stop:
  "3 < a \<Longrightarrow> download_attempts dl a l c z = (False, l, c, z)"
  by (subst download_attempts.simps) simp

lemma download_attempts_from_1:
  "download_attempts dl (Suc 0) le c zs =
     (case dl 1 of
        None \<Rightarrow> (True, le, 0, zs)
      | Some e1 \<Rightarrow>
          (case dl 2 of
             None \<Rightarrow> (True, message_or_unknown e1, 0, zs @ [2000])
           | Some e2 \<Rightarrow>
               (case dl 3 of
                  None \<Rightarrow> (True, message_or_unknown e2, 0, zs @ [2000, 4000])
                | Some e3 \<Rightarrow> (False, message_or_unknown e3, c, zs @ [2000, 4000]))))"
proof -
  have a3: "download_attempts dl 3 l c z =
      (case dl 3 of None \<Rightarrow> (True, l, 0, z) | Some e \<Rightarrow> (False, message_or_unknown e, c, z))" for l z
    using download_attempts_step [of 3 dl l c z]
    by (simp add: download_attempts_stop cong: option.case_cong)
  have a2: "download_attempts dl 2 l c z =
      (case dl 2 of None \<Rightarrow> (True, l, 0, z)
       | Some e \<Rightarrow> download_attempts dl 3 (message_or_unknown e) c (z @ [4000]))" for l z
    using download_attempts_step [of 2 dl l c z] by (simp cong: option.case_cong)
  have a1: "download_attempts dl 1 l c z =
      (case dl 1 of None \<Rightarrow> (True, l, 0, z)
       | Some e \<Rightarrow> download_attempts dl 2 (message_or_unknown e) c (z @ [2000]))" for l z
    using download_attempts_step [of 1 dl l c z] by (simp add: numeral_2_eq_2 cong: option.case_cong)
  show ?thesis
    unfolding One_nat_def [symmetric]
    by (simp only: a1 a2 a3 append_assoc append_Cons append_Nil)
qed

lemma iteration_first_ok:
  assumes "claim_fault env 0 = None"
  shows "iteration worker env ws q =
     (case claimNextPdf worker (claim_time env 0) q of
        (None, q1) \<Rightarrow> no_task env ws q1
      | (Some pdf, q1) \<Rightarrow> process_task env pdf ws q1)"
  using assms by (simp add: iteration_def withDbLockRetry_first_ok split: prod.splits option.splits)

lemma iteration_claim_retried:
  assumes "\<forall>k<n. \<exists>e. claim_fault env k = Some e \<and> isDatabaseLocked e" "n \<le> 4"
    "claim_fault env n = None"
  shows "iteration worker env ws q =
     (case claimNextPdf worker (claim_time env n) q of
        (None, q1) \<Rightarrow> no_task env (ws\<lparr>slept := slept ws @ lock_backoff n\<rparr>) q1
      | (Some pdf, q1) \<Rightarrow> process_task env pdf (ws\<lparr>slept := slept ws @ lock_backoff n\<rparr>) q1)"
  by (simp add: iteration_def db_call_retried [OF assms] split: prod.splits option.splits)

lemma iteration_claim_exhausted:
  assumes "\<forall>k<4. \<exists>e. claim_fault env k = Some e \<and> isDatabaseLocked e" "claim_fault env 4 = Some e"
  shows "iteration worker env ws q = (Thrown e, ws\<lparr>slept := slept ws @ lock_backoff 4\<rparr>, q)"
  by (simp add: iteration_def db_call_exhausted [OF assms])

lemma process_task_all_failed:
  assumes "download_fault env 1 = Some e1" "download_fault env 2 = Some e2"
    "download_fault env 3 = Some e3" "mark_fault env 0 = None"
  shows "process_task env pdf ws q =
     (if 5 \<le> consecutiveErrors ws + 1 then Break else Continue,
      ws\<lparr>result := (result ws)
             \<lparr>pdfsProcessed := pdfsProcessed (result ws) + 1,
              pdfsFailed := pdfsFailed (result ws) + 1,
              errors := errors (result ws) @ [pdfName pdf @ '': '' @ message_or_unknown e3]\<rparr>,
          consecutiveErrors := consecutiveErrors ws + 1,
          slept := slept ws @ [2000, 4000]\<rparr>,
      markFailed (mark_time env 0) (task_id pdf) (message_or_unknown e3) q)"
  using assms
  by (simp add: process_task_def download_attempts_from_1 withDbLockRetry_first_ok Let_def)

lemma process_task_saved:
  assumes "download_fault env 1 = None \<or> download_fault env 2 = None \<or> download_fault env 3 = None"
    "mark_fault env 0 = None"
  shows "fst (process_task env pdf ws q) = Continue \<and>
         consecutiveErrors (fst (snd (process_task env pdf ws q))) = 0 \<and>
         snd (snd (process_task env pdf ws q)) = markComplete (mark_time env 0) (task_id pdf) q"
  using assms
  by (auto simp: process_task_def download_attempts_from_1
      withDbLockRetry_first_ok Let_def split: option.splits)

lemma no_task_result:
  assumes "read_fault env = None"
  shows "no_task env ws q =
     (if getMetadata json_fetch_complete q = Some ''true'' then (Break, ws, q)
      else (Continue, ws\<lparr>slept := slept ws @ [500]\<rparr>, q))"
  using assms by (simp add: no_task_def Let_def)




lemma db_call_goes_through:
  "goes_through fault n \<Longrightarrow> withDbLockRetry (db_call fault run) = (Inr (run n), lock_backoff n)"
  by (simp add: goes_through_def db_call_retried)

lemma iteration_goes_through:
  assumes "goes_through (claim_fault env) n"
  shows "iteration worker env ws q =
     (case claimNextPdf worker (claim_time env n) q of
        (None, q1) \<Rightarrow> no_task env (ws\<lparr>slept := slept ws @ lock_backoff n\<rparr>) q1
      | (Some pdf, q1) \<Rightarrow> process_task env pdf (ws\<lparr>slept := slept ws @ lock_backoff n\<rparr>) q1)"
  using assms by (simp add: goes_through_def iteration_claim_retried)

lemma process_task_failed_through:
  assumes "download_fault env 1 = Some e1" "download_fault env 2 = Some e2"
    "download_fault env 3 = Some e3" "goes_through (mark_fault env) m"
  shows "process_task env pdf ws q =
     (if 5 \<le> consecutiveErrors ws + 1 then Break else Continue,
      ws\<lparr>result := (result ws)
             \<lparr>pdfsProcessed := pdfsProcessed (result ws) + 1,
              pdfsFailed := pdfsFailed (result ws) + 1,
              errors := errors (result ws) @ [pdfName pdf @ '': '' @ message_or_unknown e3]\<rparr>,
          consecutiveErrors := consecutiveErrors ws + 1,
          slept := slept ws @ [2000, 4000] @ lock_backoff m\<rparr>,
      markFailed (mark_time env m) (task_id pdf) (message_or_unknown e3) q)"
  using assms(1-3)
  by (simp add: process_task_def download_attempts_from_1 db_call_goes_through [OF assms(4)] Let_def)


lemma process_task_mark_retried:
  assumes "\<forall>k<m. \<exists>e. mark_fault env k = Some e \<and> isDatabaseLocked e" "m \<le> 4"
    "mark_fault env m = None"
    "download_attempts (download_fault env) 1 [] (consecutiveErrors ws) [] = (success, lastError, cons, zs)"
  shows "snd (snd (process_task env pdf ws q)) =
           (if success then markComplete (mark_time env m) (task_id pdf) q
            else markFailed (mark_time env m) (task_id pdf) lastError q) \<and>
         slept (fst (snd (process_task env pdf ws q))) = slept ws @ zs @ lock_backoff m \<and>
         fst (process_task env pdf ws q) \<noteq> Thrown e"
  using assms(4)
  by (simp add: process_task_def db_call_retried [OF assms(1-3)] Let_def)

lemma process_task_mark_gives_up:
  assumes "\<forall>k<m. \<exists>e. mark_fault env k = Some e \<and> isDatabaseLocked e" "m \<le> 4"
    "mark_fault env m = Some e" "m = 4 \<or> \<not> isDatabaseLocked e"
    "download_attempts (download_fault env) 1 [] (consecutiveErrors ws) [] = (success, lastError, cons, zs)"
  shows "process_task env pdf ws q =
           (Thrown e,
            ws\<lparr>result := (result ws)\<lparr>pdfsProcessed := pdfsProcessed (result ws) + 1\<rparr>,
               consecutiveErrors := cons, slept := slept ws @ zs @ lock_backoff m\<rparr>,
            q)"
  using assms(5)
  by (simp add: process_task_def db_call_gives_up [OF assms(1-4)] Let_def)

lemma iteration_claim_gives_up:
  assumes "\<forall>k<n. \<exists>e. claim_fault env k = Some e \<and> isDatabaseLocked e" "n \<le> 4"
    "claim_fault env n = Some e" "n = 4 \<or> \<not> isDatabaseLocked e"
  shows "iteration worker env ws q = (Thrown e, ws\<lparr>slept := slept ws @ lock_backoff n\<rparr>, q)"
  by (simp add: iteration_def db_call_gives_up [OF assms])

text \<open>
  C5: the worker makes its three mutations of the store, the claim in \<open>iteration\<close> and
  \<^verbatim>\<open>markComplete\<close> or \<^verbatim>\<open>markFailed\<close> in \<open>process_task\<close>, through \<^verbatim>\<open>withDbLockRetry\<close>.
  When the first \<open>n \<le> 4\<close> calls of the claim meet a locked database, the worker sleeps
  300, 600, ..., \<open>300 n\<close> ms; if call \<open>n\<close> goes through, the claim is made once, in the
  state the iteration started in, and the loop body goes on with its result; if call
  \<open>n\<close> throws an error that is no lock error, or any error at the fifth call, the
  iteration ends with that error and the store unchanged.  The same holds for the mark
  after the downloads: made once at call \<open>m\<close>, or given up with the store unchanged and
  the task neither counted as succeeded nor as failed.  An error that ends the loop is
  recorded as \<^verbatim>\<open>Queue busy: ...\<close> when it is a lock error and as \<^verbatim>\<open>Fatal: ...\<close> otherwise,
  two different entries.
\<close>

theorem worker_retries_busy_mutations:
  assumes "\<forall>k<n. \<exists>e. claim_fault env k = Some e \<and> isDatabaseLocked e" and "n \<le> 4"
    and "\<forall>k<m. \<exists>e. mark_fault env k = Some e \<and> isDatabaseLocked e" and "m \<le> 4"
    and "download_attempts (download_fault env) 1 [] (consecutiveErrors ws) []
           = (success, lastError, cons, zs)"
  shows
   "(claim_fault env n = None \<longrightarrow>
       iteration worker env ws q =
         (case claimNextPdf worker (claim_time env n) q of
            (None, q1) \<Rightarrow> no_task env (ws\<lparr>slept := slept ws @ lock_backoff n\<rparr>) q1
          | (Some pdf, q1) \<Rightarrow> process_task env pdf (ws\<lparr>slept := slept ws @ lock_backoff n\<rparr>) q1)) \<and>
    (\<forall>e. claim_fault env n = Some e \<and> (n = 4 \<or> \<not> isDatabaseLocked e) \<longrightarrow>
       iteration worker env ws q = (Thrown e, ws\<lparr>slept := slept ws @ lock_backoff n\<rparr>, q)) \<and>
    (mark_fault env m = None \<longrightarrow>
       snd (snd (process_task env pdf ws q)) =
         (if success then markComplete (mark_time env m) (task_id pdf) q
          else markFailed (mark_time env m) (task_id pdf) lastError q) \<and>
       slept (fst (snd (process_task env pdf ws q))) = slept ws @ zs @ lock_backoff m \<and>
       (\<forall>e. fst (process_task env pdf ws q) \<noteq> Thrown e)) \<and>
    (\<forall>e. mark_fault env m = Some e \<and> (m = 4 \<or> \<not> isDatabaseLocked e) \<longrightarrow>
       process_task env pdf ws q =
         (Thrown e,
          ws\<lparr>result := (result ws)\<lparr>pdfsProcessed := pdfsProcessed (result ws) + 1\<rparr>,
             consecutiveErrors := cons, slept := slept ws @ zs @ lock_backoff m\<rparr>,
          q)) \<and>
    (\<forall>e ws' q'. iteration worker env ws (others env q) = (Thrown e, ws', q') \<longrightarrow>
       worker_loop worker (env # envs) ws q =
         Some (ws'\<lparr>result := (result ws')\<lparr>errors := errors (result ws') @
                  [(if isDatabaseLocked e then ''Queue busy: '' else ''Fatal: '') @ message e]\<rparr>\<rparr>,
               q')) \<and>
    lock_backoff n = map (\<lambda>k. 300 * k) [1..<Suc n] \<and>
    ''Queue busy: '' @ x \<noteq> ''Fatal: '' @ y"
proof -
  have claim_ok: "iteration worker env ws q =
         (case claimNextPdf worker (claim_time env n) q of
            (None, q1) \<Rightarrow> no_task env (ws\<lparr>slept := slept ws @ lock_backoff n\<rparr>) q1
          | (Some pdf, q1) \<Rightarrow> process_task env pdf (ws\<lparr>slept := slept ws @ lock_backoff n\<rparr>) q1)"
    if "claim_fault env n = None"
    using assms(1,2) that by (rule iteration_claim_retried)
  have claim_bad: "iteration worker env ws q = (Thrown e, ws\<lparr>slept := slept ws @ lock_backoff n\<rparr>, q)"
    if "claim_fault env n = Some e" "n = 4 \<or> \<not> isDatabaseLocked e" for e
    using assms(1,2) that by (rule iteration_claim_gives_up)
  have mark_ok: "snd (snd (process_task env pdf ws q)) =
         (if success then markComplete (mark_time env m) (task_id pdf) q
          else markFailed (mark_time env m) (task_id pdf) lastError q) \<and>
       slept (fst (snd (process_task env pdf ws q))) = slept ws @ zs @ lock_backoff m \<and>
       (\<forall>e. fst (process_task env pdf ws q) \<noteq> Thrown e)"
    if "mark_fault env m = None"
    using process_task_mark_retried [OF assms(3,4) that assms(5)] by blast
  have mark_bad: "process_task env pdf ws q =
         (Thrown e,
          ws\<lparr>result := (result ws)\<lparr>pdfsProcessed := pdfsProcessed (result ws) + 1\<rparr>,
             consecutiveErrors := cons, slept := slept ws @ zs @ lock_backoff m\<rparr>,
          q)"
    if "mark_fault env m = Some e" "m = 4 \<or> \<not> isDatabaseLocked e" for e
    using assms(3,4) that assms(5) by (rule process_task_mark_gives_up)
  have caught: "worker_loop worker (env # envs) ws q =
         Some (ws'\<lparr>result := (result ws')\<lparr>errors := errors (result ws') @
                  [(if isDatabaseLocked e then ''Queue busy: '' else ''Fatal: '') @ message e]\<rparr>\<rparr>,
               q')"
    if "iteration worker env ws (others env q) = (Thrown e, ws', q')" for e ws' q'
    using that by (simp add: catch_entry_def)
  have "lock_backoff n = map (\<lambda>k. 300 * k) [1..<Suc n]"
    by (simp add: lock_backoff_def)
  moreover have "''Queue busy: '' @ x \<noteq> ''Fatal: '' @ y"
    by simp
  ultimately show ?thesis
    using claim_ok claim_bad mark_ok mark_bad caught by blast
qed

theorem worker_retries_busy_mutations_witness:
  "isDatabaseLocked (Error ''database is locked'') \<and>
   \<not> isDatabaseLocked (Error ''disk I/O error'') \<and>
   iteration ''worker-1'' busy_world (initial_worker_state ''worker-1'') sample_queue
     = process_task busy_world (the (fst (claimNextPdf ''worker-1'' 0 sample_queue)))
         ((initial_worker_state ''worker-1'')\<lparr>slept := [300, 600, 900, 1200]\<rparr>)
         (snd (claimNextPdf ''worker-1'' 0 sample_queue)) \<and>
   map (\<lambda>r. (task_id r, status r, workerId r))
     (pdf_tasks (snd (snd (iteration ''worker-1'' busy_world (initial_worker_state ''worker-1'')
        sample_queue))))
     = [(''t1'', 0, None), (''t2'', 2, Some ''worker-1''), (''t3'', 0, None)] \<and>
   slept (fst (snd (iteration ''worker-1'' busy_world (initial_worker_state ''worker-1'')
        sample_queue)))
     = [300, 600, 900, 1200, 300, 600, 900, 1200] \<and>
   iteration ''worker-1'' (calm\<lparr>claim_fault := always_locked\<rparr>)
       (initial_worker_state ''worker-1'') sample_queue
     = (Thrown (Error ''database is locked''),
        (initial_worker_state ''worker-1'')\<lparr>slept := [300, 600, 900, 1200]\<rparr>, sample_queue) \<and>
   map_option (\<lambda>r. (errors (result (fst r)), snd r = sample_queue))
     (worker_loop ''worker-1'' [calm\<lparr>claim_fault := always_locked\<rparr>]
        (initial_worker_state ''worker-1'') sample_queue)
     = Some ([''Queue busy: database is locked''], True) \<and>
   map_option (\<lambda>r. (errors (result (fst r)), slept (fst r), snd r = sample_queue))
     (worker_loop ''worker-1'' [calm\<lparr>claim_fault := disk_error\<rparr>]
        (initial_worker_state ''worker-1'') sample_queue)
     = Some ([''Fatal: disk I/O error''], [], True)"
  using worker_retries_busy_mutations
      [of 4 busy_world 4 "initial_worker_state ''worker-1''" True "[]" 0 "[]"
          "''worker-1''" sample_queue "the (fst (claimNextPdf ''worker-1'' 0 sample_queue))" "[]"]
    worker_retries_busy_mutations
      [of 4 busy_world 4 "(initial_worker_state ''worker-1'')\<lparr>slept := [300, 600, 900, 1200]\<rparr>"
          True "[]" 0 "[]"
          "''worker-1''" "snd (claimNextPdf ''worker-1'' 0 sample_queue)"
          "the (fst (claimNextPdf ''worker-1'' 0 sample_queue))" "[]"]
    worker_retries_busy_mutations
      [of 4 "calm\<lparr>claim_fault := always_locked\<rparr>" 0 "initial_worker_state ''worker-1''" True "[]" 0 "[]"
          "''worker-1''" sample_queue "the (fst (claimNextPdf ''worker-1'' 0 sample_queue))" "[]"]
    worker_retries_busy_mutations
      [of 0 "calm\<lparr>claim_fault := disk_error\<rparr>" 0 "initial_worker_state ''worker-1''" True "[]" 0 "[]"
          "''worker-1''" sample_queue "the (fst (claimNextPdf ''worker-1'' 0 sample_queue))" "[]"]
  by (simp add: busy_world_def calm_def locked_four_times_def always_locked_def disk_error_def
      task_def sample_queue_def worker_eval queue_eval download_attempts_from_1 upt_conv_Cons)




lemma process_task_failed_gives_up:
  assumes "download_fault env 1 = Some e1" "download_fault env 2 = Some e2"
    "download_fault env 3 = Some e3"
    "\<forall>k<m. \<exists>e. mark_fault env k = Some e \<and> isDatabaseLocked e" "m \<le> 4"
    "mark_fault env m = Some e" "m = 4 \<or> \<not> isDatabaseLocked e"
  shows "process_task env pdf ws q =
     (Thrown e,
      ws\<lparr>result := (result ws)\<lparr>pdfsProcessed := pdfsProcessed (result ws) + 1\<rparr>,
         slept := slept ws @ [2000, 4000] @ lock_backoff m\<rparr>,
      q)"
proof -
  have "download_attempts (download_fault env) 1 [] (consecutiveErrors ws) []
        = (False, message_or_unknown e3, consecutiveErrors ws, [2000, 4000])"
    using assms(1-3) by (simp add: download_attempts_from_1)
  from process_task_mark_gives_up [OF assms(4-7) this, of pdf q] show ?thesis
    by simp
qed

text \<open>
  C8 (as the code has it): when a task is claimed and all three download attempts throw,
  the worker sleeps 2000 ms and 4000 ms between the attempts and then calls
  \<^verbatim>\<open>markFailed\<close> through \<^verbatim>\<open>withDbLockRetry\<close>, with the message of the third error, or
  \<^verbatim>\<open>Unknown error\<close> when that message is empty.  If the call goes through (after
  \<open>m \<le> 4\<close> locked failures), the claimed task's row gets status 3, \<open>completedAt\<close> the
  time of the call and \<open>error\<close> that text; the counters of failed tasks and of
  consecutive failures go up by one, and the loop goes on with the next iteration unless
  the consecutive failures reach 5, in which case it is left.  If the call is given up
  (a fifth locked failure, or another error of the store), the task stays in progress
  with the worker as owner, the two counters stay as they are, and the loop ends with
  the error recorded.
\<close>

theorem failed_download_marks_task_failed:
  assumes "goes_through (claim_fault env) n"
    and "claimNextPdf worker (claim_time env n) (others env q0) = (Some pdf, q1)"
    and "download_fault env 1 = Some e1" "download_fault env 2 = Some e2"
        "download_fault env 3 = Some e3"
    and "\<forall>k<m. \<exists>e. mark_fault env k = Some e \<and> isDatabaseLocked e" and "m \<le> 4"
  shows
   "(mark_fault env m = None \<longrightarrow>
      (let (control, ws', q') = iteration worker env ws (others env q0) in
       control = (if 5 \<le> consecutiveErrors ws + 1 then Break else Continue) \<and>
       q' = markFailed (mark_time env m) (task_id pdf) (message_or_unknown e3) q1 \<and>
       list_ex (\<lambda>r. task_id r = task_id pdf) (pdf_tasks q') \<and>
       list_all (\<lambda>r. task_id r \<noteq> task_id pdf \<or>
                    (status r = 3 \<and> completedAt r = Some (mark_time env m) \<and>
                     error r = Some (message_or_unknown e3))) (pdf_tasks q') \<and>
       slept ws' = slept ws @ lock_backoff n @ [2000, 4000] @ lock_backoff m \<and>
       consecutiveErrors ws' = consecutiveErrors ws + 1 \<and>
       pdfsFailed (result ws') = pdfsFailed (result ws) + 1 \<and>
       (consecutiveErrors ws + 1 < 5 \<longrightarrow>
          worker_loop worker (env # envs) ws q0 = worker_loop worker envs ws' q'))) \<and>
    (\<forall>e. mark_fault env m = Some e \<and> (m = 4 \<or> \<not> isDatabaseLocked e) \<longrightarrow>
       iteration worker env ws (others env q0) =
         (Thrown e,
          ws\<lparr>result := (result ws)\<lparr>pdfsProcessed := pdfsProcessed (result ws) + 1\<rparr>,
             slept := slept ws @ lock_backoff n @ [2000, 4000] @ lock_backoff m\<rparr>,
          q1) \<and>
       list_ex (\<lambda>r. task_id r = task_id pdf) (pdf_tasks q1) \<and>
       list_all (\<lambda>r. task_id r \<noteq> task_id pdf \<or> (status r = 1 \<and> workerId r = Some worker))
         (pdf_tasks q1) \<and>
       worker_loop worker (env # envs) ws q0 =
         Some (ws\<lparr>result := (result ws)
                      \<lparr>pdfsProcessed := pdfsProcessed (result ws) + 1,
                       errors := errors (result ws) @ [catch_entry e]\<rparr>,
                  slept := slept ws @ lock_backoff n @ [2000, 4000] @ lock_backoff m\<rparr>,
               q1))"
proof -
  have marked: "(let (control, ws', q') = iteration worker env ws (others env q0) in
       control = (if 5 \<le> consecutiveErrors ws + 1 then Break else Continue) \<and>
       q' = markFailed (mark_time env m) (task_id pdf) (message_or_unknown e3) q1 \<and>
       list_ex (\<lambda>r. task_id r = task_id pdf) (pdf_tasks q') \<and>
       list_all (\<lambda>r. task_id r \<noteq> task_id pdf \<or>
                    (status r = 3 \<and> completedAt r = Some (mark_time env m) \<and>
                     error r = Some (message_or_unknown e3))) (pdf_tasks q') \<and>
       slept ws' = slept ws @ lock_backoff n @ [2000, 4000] @ lock_backoff m \<and>
       consecutiveErrors ws' = consecutiveErrors ws + 1 \<and>
       pdfsFailed (result ws') = pdfsFailed (result ws) + 1 \<and>
       (consecutiveErrors ws + 1 < 5 \<longrightarrow>
          worker_loop worker (env # envs) ws q0 = worker_loop worker envs ws' q'))"
    if ok: "mark_fault env m = None"
  proof -
    have through: "goes_through (mark_fault env) m"
      using assms(6,7) ok by (simp add: goes_through_def)
    let ?ws' = "ws\<lparr>slept := slept ws @ lock_backoff n,
          result := (result ws)
             \<lparr>pdfsProcessed := pdfsProcessed (result ws) + 1,
              pdfsFailed := pdfsFailed (result ws) + 1,
              errors := errors (result ws) @ [pdfName pdf @ '': '' @ message_or_unknown e3]\<rparr>,
          consecutiveErrors := consecutiveErrors ws + 1,
          slept := (slept ws @ lock_backoff n) @ [2000, 4000] @ lock_backoff m\<rparr>"
    let ?q' = "markFailed (mark_time env m) (task_id pdf) (message_or_unknown e3) q1"
    have it: "iteration worker env ws (others env q0) =
        (if 5 \<le> consecutiveErrors ws + 1 then Break else Continue, ?ws', ?q')"
      using assms(2)
        process_task_failed_through [OF assms(3-5) through, of pdf "ws\<lparr>slept := slept ws @ lock_backoff n\<rparr>" q1]
      by (simp add: iteration_goes_through [OF assms(1)])
    have ex: "list_ex (\<lambda>r. task_id r = task_id pdf) (pdf_tasks ?q')"
      using claimed_row_present [OF assms(2)] by (simp add: markFailed_def list_ex_map_if)
    have al: "list_all (\<lambda>r. task_id r \<noteq> task_id pdf \<or>
                    (status r = 3 \<and> completedAt r = Some (mark_time env m) \<and>
                     error r = Some (message_or_unknown e3))) (pdf_tasks ?q')"
      by (auto simp: markFailed_def list_all_iff)
    have loop: "consecutiveErrors ws + 1 < 5 \<longrightarrow>
          worker_loop worker (env # envs) ws q0 = worker_loop worker envs ?ws' ?q'"
      using it by simp
    show ?thesis
      unfolding it using ex al loop by simp
  qed
  have given_up: "iteration worker env ws (others env q0) =
         (Thrown e,
          ws\<lparr>result := (result ws)\<lparr>pdfsProcessed := pdfsProcessed (result ws) + 1\<rparr>,
             slept := slept ws @ lock_backoff n @ [2000, 4000] @ lock_backoff m\<rparr>,
          q1) \<and>
       list_ex (\<lambda>r. task_id r = task_id pdf) (pdf_tasks q1) \<and>
       list_all (\<lambda>r. task_id r \<noteq> task_id pdf \<or> (status r = 1 \<and> workerId r = Some worker))
         (pdf_tasks q1) \<and>
       worker_loop worker (env # envs) ws q0 =
         Some (ws\<lparr>result := (result ws)
                      \<lparr>pdfsProcessed := pdfsProcessed (result ws) + 1,
                       errors := errors (result ws) @ [catch_entry e]\<rparr>,
                  slept := slept ws @ lock_backoff n @ [2000, 4000] @ lock_backoff m\<rparr>,
               q1)"
    if bad: "mark_fault env m = Some e" "m = 4 \<or> \<not> isDatabaseLocked e" for e
  proof -
    have it: "iteration worker env ws (others env q0) =
         (Thrown e,
          ws\<lparr>result := (result ws)\<lparr>pdfsProcessed := pdfsProcessed (result ws) + 1\<rparr>,
             slept := slept ws @ lock_backoff n @ [2000, 4000] @ lock_backoff m\<rparr>,
          q1)"
      using assms(2)
        process_task_failed_gives_up [OF assms(3-7) bad, of pdf "ws\<lparr>slept := slept ws @ lock_backoff n\<rparr>" q1]
      by (simp add: iteration_goes_through [OF assms(1)])
    have "worker_loop worker (env # envs) ws q0 =
         Some (ws\<lparr>result := (result ws)
                      \<lparr>pdfsProcessed := pdfsProcessed (result ws) + 1,
                       errors := errors (result ws) @ [catch_entry e]\<rparr>,
                  slept := slept ws @ lock_backoff n @ [2000, 4000] @ lock_backoff m\<rparr>,
               q1)"
      using it by simp
    then show ?thesis
      using it claimed_rows_owned [OF assms(2)] by simp
  qed
  show ?thesis
    using marked given_up by blast
qed

theorem failed_download_marks_task_failed_witness:
  "goes_through (claim_fault (failing_downloads ''HTTP 503: Service Unavailable'')) 0 \<and>
   fst (claimNextPdf ''worker-1'' 100 sample_queue) \<noteq> None \<and>
   fst (iteration ''worker-1'' (failing_downloads ''HTTP 503: Service Unavailable'')
          (initial_worker_state ''worker-1'') sample_queue) = Continue \<and>
   slept (fst (snd (iteration ''worker-1'' (failing_downloads ''HTTP 503: Service Unavailable'')
          (initial_worker_state ''worker-1'') sample_queue))) = [2000, 4000] \<and>
   map (\<lambda>r. (task_id r, status r, completedAt r, error r))
     (pdf_tasks (snd (snd (iteration ''worker-1'' (failing_downloads ''HTTP 503: Service Unavailable'')
          (initial_worker_state ''worker-1'') sample_queue))))
   = [(''t1'', 0, None, None),
      (''t2'', 3, Some 200, Some ''HTTP 503: Service Unavailable''),
      (''t3'', 0, None, None)] \<and>
   map_option (\<lambda>(ws, q). (pdfsProcessed (result ws), pdfsFailed (result ws), errors (result ws),
                   slept ws, map (\<lambda>r. (task_id r, status r, error r)) (pdf_tasks q)))
     (worker_loop ''worker-1''
        [(failing_downloads ''HTTP 503: Service Unavailable'')\<lparr>mark_fault := always_locked\<rparr>]
        (initial_worker_state ''worker-1'') sample_queue)
   = Some (1, 0, [''Queue busy: database is locked''], [2000, 4000, 300, 600, 900, 1200],
           [(''t1'', 0, None), (''t2'', 1, None), (''t3'', 0, None)])"
  using failed_download_marks_task_failed
    [of "failing_downloads ''HTTP 503: Service Unavailable''" 0 "''worker-1''" sample_queue
        "the (fst (claimNextPdf ''worker-1'' 100 sample_queue))"
        "snd (claimNextPdf ''worker-1'' 100 sample_queue)"
        "Error ''HTTP 503: Service Unavailable''" "Error ''HTTP 503: Service Unavailable''"
        "Error ''HTTP 503: Service Unavailable''" 0 "initial_worker_state ''worker-1''" "[]"]
    failed_download_marks_task_failed
    [of "(failing_downloads ''HTTP 503: Service Unavailable'')\<lparr>mark_fault := always_locked\<rparr>" 0
        "''worker-1''" sample_queue
        "the (fst (claimNextPdf ''worker-1'' 100 sample_queue))"
        "snd (claimNextPdf ''worker-1'' 100 sample_queue)"
        "Error ''HTTP 503: Service Unavailable''" "Error ''HTTP 503: Service Unavailable''"
        "Error ''HTTP 503: Service Unavailable''" 4 "initial_worker_state ''worker-1''" "[]"]
  by (simp add: calm_def failing_downloads_def always_locked_def task_def sample_queue_def
      worker_eval queue_eval goes_through_def iteration_first_ok process_task_all_failed
      upt_conv_Cons)

text \<open>
  The stored error is not always the last error's message: when the download errors
  carry an empty message, the row's \<open>error\<close> is \<^verbatim>\<open>Unknown error\<close>.
\<close>

theorem empty_message_is_replaced:
  "download_fault (failing_downloads []) 3 = Some (Error []) \<and>
   message (Error []) = [] \<and>
   map (\<lambda>r. (task_id r, status r, error r))
     (pdf_tasks (snd (snd (iteration ''worker-1'' (failing_downloads [])
          (initial_worker_state ''worker-1'') sample_queue))))
   = [(''t1'', 0, None), (''t2'', 3, Some ''Unknown error''), (''t3'', 0, None)]"
  by (simp add: calm_def failing_downloads_def task_def sample_queue_def worker_eval queue_eval iteration_first_ok process_task_all_failed)

text \<open>
  The sample run: three tasks processed, the first failed and the other two completed,
  and the worker leaves once the flag is set and nothing is pending.
\<close>

lemma runWorker_sample:
  "map_option (\<lambda>(res, q). (pdfsProcessed res, pdfsSucceeded res, pdfsFailed res, errors res,
                   exit_code res, map (\<lambda>r. (task_id r, status r)) (pdf_tasks q)))
     (runWorker ''worker-1'' None sample_run sample_queue)
   = Some (3, 2, 1, [''b.pdf: HTTP 503''], 1, [(''t1'', 2), (''t2'', 3), (''t3'', 2)])"
  by (simp add: calm_def failing_downloads_def locked_four_times_def task_def sample_queue_def runWorker_def exit_code_def sample_run_def worker_eval queue_eval iteration_first_ok
      process_task_all_failed no_task_result
      iteration_claim_retried [where n = 4] process_task_def download_attempts_from_1
      withDbLockRetry_first_ok upt_conv_Cons)

section \<open>The worker pool\<close>

lemma clamp_cases:
  "math_max (Finite 1) (math_min (Finite 10) n) =
     (case n of NaN \<Rightarrow> NaN | NegInfinity \<Rightarrow> Finite 1 | PosInfinity \<Rightarrow> Finite 10
      | Finite x \<Rightarrow> Finite (max 1 (min 10 x)))"
  by (cases n) simp_all

lemma workerCount_spawnWorker: "workerCount (spawnWorker pool wid) = workerCount pool"
  by (simp add: spawnWorker_def)

lemma spawn_loop_NaN: "workerCount pool = NaN \<Longrightarrow> spawn_loop i pool = Some pool"
  by (subst spawn_loop.simps) (simp add: number_of_nat_def)

lemma less_count_iff: "js_less (number_of_nat i) (Finite c) \<longleftrightarrow> i < nat \<lceil>c\<rceil>"
  by (simp add: number_of_nat_def zless_nat_eq_int_zless less_ceiling_iff)

lemma spawn_loop_Finite:
  assumes "workerCount pool = Finite c" "i \<le> nat \<lceil>c\<rceil>"
  shows "spawn_loop i pool = Some (foldl spawnWorker pool (map worker_id_of [i..<nat \<lceil>c\<rceil>]))"
  using assms
proof (induction "nat \<lceil>c\<rceil> - i" arbitrary: i pool)
  case 0
  then have "\<not> i < nat \<lceil>c\<rceil>" by simp
  then show ?case
    using 0 by (subst spawn_loop.simps) (simp add: less_count_iff)
next
  case (Suc d)
  then have lt: "i < nat \<lceil>c\<rceil>" by simp
  have "spawn_loop (i + 1) (spawnWorker pool (worker_id_of i)) =
      Some (foldl spawnWorker (spawnWorker pool (worker_id_of i)) (map worker_id_of [i + 1..<nat \<lceil>c\<rceil>]))"
    using Suc lt by (intro Suc.hyps(1)) (simp_all add: workerCount_spawnWorker)
  then show ?case
    using Suc.prems lt by (subst spawn_loop.simps) (simp add: less_count_iff upt_conv_Cons)
qed

lemma ids10: "distinct (map worker_id_of [0..<10])"
  by (simp add: worker_id_of_def digit_char_def upt_conv_Cons)

lemma ids_take:
  assumes "n \<le> 10"
  shows "map worker_id_of [0..<n] = take n (map worker_id_of [0..<10])"
proof -
  have "take n [0..<10] = [0..<0 + n]"
    using assms by (intro take_upt) simp
  then show ?thesis
    by (simp only: take_map add_0)
qed

lemma ids_distinct:
  assumes "n \<le> 10"
  shows "distinct (map worker_id_of [0..<n])"
proof -
  have "distinct (take n (map worker_id_of [0..<10]))"
    using ids10 by (rule distinct_take)
  then show ?thesis
    by (simp only: ids_take [OF assms])
qed

lemma spawn_all:
  "distinct ids \<Longrightarrow> set (workers pool) \<inter> set ids = {} \<Longrightarrow>
   foldl spawnWorker pool ids = pool\<lparr>workers := workers pool @ ids\<rparr>"
proof (induction ids arbitrary: pool)
  case Nil
  show ?case by simp
next
  case (Cons a ids)
  have a: "spawnWorker pool a = pool\<lparr>workers := workers pool @ [a]\<rparr>"
    using Cons.prems by (simp add: spawnWorker_def)
  have "foldl spawnWorker (pool\<lparr>workers := workers pool @ [a]\<rparr>) ids
        = (pool\<lparr>workers := workers pool @ [a]\<rparr>)\<lparr>workers := workers (pool\<lparr>workers := workers pool @ [a]\<rparr>) @ ids\<rparr>"
    using Cons.prems by (intro Cons.IH) auto
  then show ?case using a by simp
qed

lemma spawned_le_10: "spawned n \<le> 10"
proof (cases n)
  case (Finite x)
  have "max 1 (min 10 x) \<le> of_int 10"
    by simp
  then have "\<lceil>max 1 (min 10 x)\<rceil> \<le> 10"
    by (rule ceiling_le)
  then have "nat \<lceil>max 1 (min 10 x)\<rceil> \<le> 10"
    by arith
  moreover have "spawned n = nat \<lceil>max 1 (min 10 x)\<rceil>"
    using Finite by (simp add: spawned_def)
  ultimately show ?thesis by (simp only:)
qed (simp_all add: spawned_def)

lemma start_new:
  "start (new_WorkerPool n) =
     Some \<lparr>workerCount = math_max (Finite 1) (math_min (Finite 10) n),
           workers = map worker_id_of [0..<spawned n], results = []\<rparr>"
proof (cases "math_max (Finite 1) (math_min (Finite 10) n)")
  case NaN
  then show ?thesis
    by (simp add: start_def new_WorkerPool_def spawn_loop_NaN spawned_def)
next
  case (Finite c)
  have d: "distinct (map worker_id_of [0..<spawned n])"
    using spawned_le_10 by (rule ids_distinct)
  have "spawned n = nat \<lceil>c\<rceil>" using Finite by (simp add: spawned_def)
  then show ?thesis
    using Finite d spawn_loop_Finite [of "new_WorkerPool n" c 0]
    by (simp add: start_def new_WorkerPool_def spawn_all)
next
  case NegInfinity
  then show ?thesis by (cases n) (simp_all add: clamp_cases)
next
  case PosInfinity
  then show ?thesis by (cases n) (simp_all add: clamp_cases)
qed

lemma spawned_integer:
  "spawned (number_of_int k) = nat (max 1 (min 10 k))"
proof -
  have "max 1 (min 10 (of_int k :: rat)) = of_int (max 1 (min 10 k))"
    by (simp add: max_def min_def)
  then show ?thesis
    by (simp add: spawned_def number_of_int_def)
qed

lemma clamp_integer:
  "math_max (Finite 1) (math_min (Finite 10) (number_of_int k)) = number_of_int (max 1 (min 10 k))"
  by (simp add: number_of_int_def max_def min_def)

lemma accounted_event:
  assumes "accounted S pool" "fst ev \<in> S"
  shows "accounted S (handle_event pool ev)"
proof (cases ev)
  case (Pair wid e)
  then show ?thesis using assms
    by (cases e) (auto simp: accounted_def distinct_update dom_update)
qed

lemma handle_event_count: "workerCount (handle_event pool ev) = workerCount pool"
  by (cases ev, rename_tac wid e, case_tac e) simp_all

lemma accounted_events:
  "accounted S pool \<Longrightarrow> \<forall>ev \<in> set evs. fst ev \<in> S \<Longrightarrow> accounted S (foldl handle_event pool evs)"
  by (induction evs arbitrary: pool) (simp_all add: accounted_event)

lemma events_count: "workerCount (foldl handle_event pool evs) = workerCount pool"
  by (induction evs arbitrary: pool) (simp_all add: handle_event_count)

lemma tally:
  "foldl (\<lambda>res entry. if code (snd entry) = 0
              then res\<lparr>completedWorkers := completedWorkers res + 1\<rparr>
              else res\<lparr>failedWorkers := failedWorkers res + 1\<rparr>) res0 entries =
   res0\<lparr>completedWorkers := completedWorkers res0 + int (length (filter (\<lambda>e. code (snd e) = 0) entries)),
        failedWorkers := failedWorkers res0 + int (length (filter (\<lambda>e. code (snd e) \<noteq> 0) entries))\<rparr>"
  by (induction entries arbitrary: res0) simp_all

lemma compile_results_eq:
  "compile_results pool =
     \<lparr>totalWorkers = workerCount pool,
      completedWorkers = int (length (filter (\<lambda>e. code (snd e) = 0) (results pool))),
      failedWorkers = int (length (filter (\<lambda>e. code (snd e) \<noteq> 0) (results pool)))\<rparr>"
  by (simp add: compile_results_def tally)

lemma filter_split_length: "length (filter P xs) + length (filter (\<lambda>x. \<not> P x) xs) = length xs"
  by (induction xs) auto

lemma waitForCompletion_Some:
  assumes "waitForCompletion ticks pool = Some r" "accounted S pool"
    "\<forall>tick \<in> set ticks. \<forall>ev \<in> set tick. fst ev \<in> S"
  shows "\<exists>pool'. r = compile_results pool' \<and> workers pool' = [] \<and> accounted S pool' \<and>
           workerCount pool' = workerCount pool"
  using assms
proof (induction ticks arbitrary: pool)
  case Nil
  then have "workers pool = []" "r = compile_results pool"
    by (simp_all split: if_splits)
  then show ?case using Nil.prems(2) by (intro exI [of _ pool]) simp
next
  case (Cons evs ticks)
  show ?case
  proof (cases "workers pool = []")
    case True
    then have "r = compile_results pool" using Cons.prems(1) by simp
    then show ?thesis using True Cons.prems(2) by (intro exI [of _ pool]) simp
  next
    case False
    then have w: "waitForCompletion ticks (foldl handle_event pool evs) = Some r"
      using Cons.prems(1) by simp
    have a: "accounted S (foldl handle_event pool evs)"
      using Cons.prems by (simp add: accounted_events)
    have t: "\<forall>tick \<in> set ticks. \<forall>ev \<in> set tick. fst ev \<in> S"
      using Cons.prems(3) by simp
    from Cons.IH [OF w a t] obtain pool' where "r = compile_results pool'" "workers pool' = []"
      "accounted S pool'" "workerCount pool' = workerCount (foldl handle_event pool evs)"
      by blast
    then show ?thesis by (intro exI [of _ pool']) (simp add: events_count)
  qed
qed

lemma waitForCompletion_returns:
  "workers (foldl handle_event pool (concat ticks)) = [] \<Longrightarrow>
   \<exists>r. waitForCompletion ticks pool = Some r"
  by (induction ticks arbitrary: pool) simp_all

lemma accounted_started: "accounted (set (workers (started n))) (started n)"
  by (simp add: started_def accounted_def)

text \<open>
  For every worker count given to the constructor, \<^verbatim>\<open>start\<close> returns; and when
  \<^verbatim>\<open>waitForCompletion\<close> returns, each spawned worker has exactly one recorded result,
  counted as completed when its code is 0 and as failed otherwise, so that
  \<open>completedWorkers + failedWorkers\<close> is the number of workers spawned.  \<open>totalWorkers\<close>
  is the stored count: for a count that is an integer it is the count clamped to 1..10,
  and equal to that sum.
\<close>

lemma waitForCompletion_accounts_for_spawned_workers:
  assumes "start (new_WorkerPool n) = Some pool0"
    and "waitForCompletion ticks (foldl handle_event pool0 before) = Some r"
    and "\<forall>tick \<in> set (before # ticks). \<forall>ev \<in> set tick. fst ev \<in> set (workers pool0)"
  shows "completedWorkers r + failedWorkers r = int (length (workers pool0)) \<and>
         length (workers pool0) = spawned n \<and>
         totalWorkers r = math_max (Finite 1) (math_min (Finite 10) n) \<and>
         (\<exists>pool'. r = compile_results pool' \<and> workers pool' = [] \<and>
             distinct (map fst (results pool')) \<and>
             fst ` set (results pool') = set (workers pool0) \<and>
             completedWorkers r = int (length (filter (\<lambda>e. code (snd e) = 0) (results pool'))) \<and>
             failedWorkers r = int (length (filter (\<lambda>e. code (snd e) \<noteq> 0) (results pool')))) \<and>
         (\<forall>k. n = number_of_int k \<longrightarrow>
            number_of_int (completedWorkers r + failedWorkers r) = totalWorkers r \<and>
            totalWorkers r = number_of_int (max 1 (min 10 k)))"
proof -
  have pool0: "pool0 = started n"
    using assms(1) by (simp add: start_new started_def)
  let ?S = "set (workers (started n))"
  let ?p0 = "foldl handle_event (started n) before"
  have acc0: "accounted ?S ?p0"
    using assms(3) pool0 by (intro accounted_events accounted_started) simp
  have tk: "\<forall>tick \<in> set ticks. \<forall>ev \<in> set tick. fst ev \<in> ?S"
    using assms(3) pool0 by simp
  have w: "waitForCompletion ticks ?p0 = Some r" using assms(2) pool0 by simp
  from waitForCompletion_Some [OF w acc0 tk]
  obtain pool' where p: "r = compile_results pool'" "workers pool' = []" "accounted ?S pool'"
      "workerCount pool' = workerCount ?p0" by blast
  have cnt: "workerCount pool' = math_max (Finite 1) (math_min (Finite 10) n)"
    using p(4) by (simp add: events_count started_def)
  have keys: "distinct (map fst (results pool'))" "fst ` set (results pool') = ?S"
    using p(2,3) by (simp_all add: accounted_def)
  have "length (results pool') = card (set (map fst (results pool')))"
    using keys(1) distinct_card [of "map fst (results pool')"] by simp
  also have "\<dots> = card ?S" using keys(2) by simp
  also have "\<dots> = card (set (map worker_id_of [0..<spawned n]))"
    by (simp add: started_def)
  also have "\<dots> = length (map worker_id_of [0..<spawned n])"
  proof (rule distinct_card)
    show "distinct (map worker_id_of [0..<spawned n])"
      using spawned_le_10 by (rule ids_distinct)
  qed
  finally have len: "length (results pool') = spawned n" by simp
  have split: "int (length (filter (\<lambda>e. code (snd e) = 0) (results pool')))
      + int (length (filter (\<lambda>e. code (snd e) \<noteq> 0) (results pool'))) = int (length (results pool'))"
    using filter_split_length [of "\<lambda>e. code (snd e) = 0" "results pool'"] by simp
  have r: "totalWorkers r = math_max (Finite 1) (math_min (Finite 10) n)"
      "completedWorkers r = int (length (filter (\<lambda>e. code (snd e) = 0) (results pool')))"
      "failedWorkers r = int (length (filter (\<lambda>e. code (snd e) \<noteq> 0) (results pool')))"
    using p(1) cnt by (simp_all add: compile_results_eq)
  have n0: "length (workers pool0) = spawned n"
    using pool0 by (simp add: started_def)
  have sum: "completedWorkers r + failedWorkers r = int (spawned n)"
    using r split len by simp
  have int_case: "number_of_int (completedWorkers r + failedWorkers r) = totalWorkers r \<and>
            totalWorkers r = number_of_int (max 1 (min 10 k))" if "n = number_of_int k" for k
  proof -
    have "0 \<le> max 1 (min 10 k)" by simp
    then have "int (spawned n) = max 1 (min 10 k)"
      using that by (simp only: spawned_integer int_nat_eq if_True)
    then show ?thesis
      using that sum r(1) by (simp add: clamp_integer)
  qed
  have ex: "\<exists>pool'. r = compile_results pool' \<and> workers pool' = [] \<and>
             distinct (map fst (results pool')) \<and>
             fst ` set (results pool') = set (workers pool0) \<and>
             completedWorkers r = int (length (filter (\<lambda>e. code (snd e) = 0) (results pool'))) \<and>
             failedWorkers r = int (length (filter (\<lambda>e. code (snd e) \<noteq> 0) (results pool')))"
    using p(1,2) keys r(2,3) pool0 by (intro exI [of _ pool']) simp
  show ?thesis
    using sum n0 r(1) ex int_case by simp
qed

lemmas pool_eval =
  start_new spawned_def worker_id_of_def digit_char_def upt_conv_Cons compile_results_def or_zero_def
  number_of_int_def

text \<open>Three workers: one exits with code 0, one with code 1, one cannot be spawned.\<close>

lemma waitForCompletion_three_workers:
  "start (new_WorkerPool (number_of_int 3)) =
     Some \<lparr>workerCount = Finite 3, workers = [''worker-1'', ''worker-2'', ''worker-3''], results = []\<rparr> \<and>
   waitForCompletion
      [[(''worker-1'', Close (Some 0) None)], [(''worker-3'', Close (Some 1) None)],
       [(''worker-2'', SpawnError)], []]
      \<lparr>workerCount = Finite 3, workers = [''worker-1'', ''worker-2'', ''worker-3''], results = []\<rparr>
   = Some \<lparr>totalWorkers = Finite 3, completedWorkers = 1, failedWorkers = 2\<rparr>"
  by (simp add: pool_eval)

text \<open>
  What the handlers record: a spawn error is recorded with code 1, and a process ended
  by a signal (exit code \<^verbatim>\<open>null\<close>) with code 0, so it counts as completed.
\<close>

lemma spawn_error_recorded:
  "map_of (results (handle_event pool (wid, SpawnError))) wid = Some \<lparr>code = 1, signal = None\<rparr>"
  by (simp add: update_conv')

lemma killed_worker_recorded:
  "map_of (results (handle_event pool (wid, Close None (Some ''SIGTERM'')))) wid
     = Some \<lparr>code = 0, signal = Some ''SIGTERM''\<rparr>"
  by (simp add: update_conv' or_zero_def)

text \<open>
  C9 (where the code departs from it): the clamp \<^verbatim>\<open>Math.max(1, Math.min(10, workerCount))\<close>
  lets a count through that is no integer.  For \<^verbatim>\<open>NaN\<close> (what \<^verbatim>\<open>parseInt\<close> returns for an
  option that is no number) the stored count is \<^verbatim>\<open>NaN\<close>, \<^verbatim>\<open>start\<close> spawns no worker and
  \<^verbatim>\<open>waitForCompletion\<close> returns at once with \<open>totalWorkers\<close> \<^verbatim>\<open>NaN\<close> and both counters 0.
  For the count 2.5 the stored count is 2.5, three workers are spawned and counted, and
  \<open>totalWorkers\<close> is 2.5.  In both runs \<open>completedWorkers + failedWorkers\<close> is not
  \<open>totalWorkers\<close>.
\<close>

theorem worker_count_that_is_no_integer:
  "start (new_WorkerPool NaN) = Some \<lparr>workerCount = NaN, workers = [], results = []\<rparr> \<and>
   waitForCompletion [] \<lparr>workerCount = NaN, workers = [], results = []\<rparr>
     = Some \<lparr>totalWorkers = NaN, completedWorkers = 0, failedWorkers = 0\<rparr> \<and>
   number_of_int (0 + 0) \<noteq> NaN \<and>
   start (new_WorkerPool (Finite (5 / 2))) =
     Some \<lparr>workerCount = Finite (5 / 2), workers = [''worker-1'', ''worker-2'', ''worker-3''],
           results = []\<rparr> \<and>
   waitForCompletion
      [[(''worker-1'', Close (Some 0) None), (''worker-2'', Close (Some 0) None)],
       [(''worker-3'', Close (Some 0) None)]]
      \<lparr>workerCount = Finite (5 / 2), workers = [''worker-1'', ''worker-2'', ''worker-3''],
        results = []\<rparr>
     = Some \<lparr>totalWorkers = Finite (5 / 2), completedWorkers = 3, failedWorkers = 0\<rparr> \<and>
   number_of_int (3 + 0) \<noteq> Finite (5 / 2)"
  by (simp add: start_def new_WorkerPool_def spawn_loop.simps spawnWorker_def number_of_nat_def
      number_of_int_def worker_id_of_def digit_char_def compile_results_def or_zero_def)

end
